theory Spec2Isabelle
  imports Complex_Main "HOL-Library.Monad_Syntax"
begin

section \<open>The document research agent: chunker, loader, vector store, retrieval\<close>

text \<open>
  The development follows \<^verbatim>\<open>employees/r&d/document_research_agent.py\<close>. Python
  floats are taken as real numbers (rounding to float32 is not modelled), Python strings
  as \<open>string\<close> with one \<open>char\<close> per code point, and the libraries the script calls
  (tiktoken, faiss, numpy, json, the embedding client) by the part of their behaviour the
  script relies on.
\<close>

subsection \<open>Python slicing\<close>

text \<open>\<^verbatim>\<open>xs[lo:hi]\<close>: a negative bound counts from the end, and both bounds are clamped.\<close>

definition py_slice :: "'a list \<Rightarrow> int \<Rightarrow> int \<Rightarrow> 'a list" where
  "py_slice xs lo hi =
     (let n = int (length xs);
          a = (if lo < 0 then max 0 (lo + n) else min lo n);
          b = (if hi < 0 then max 0 (hi + n) else min hi n)
      in take (nat (b - a)) (drop (nat a) xs))"

subsection \<open>Chunker\<close>

text \<open>
  \<^verbatim>\<open>enc = tiktoken.get_encoding("cl100k_base")\<close> is an object with two methods; both are
  parameters here.
\<close>

record encoding =
  encode :: "string \<Rightarrow> int list"
  decode :: "int list \<Rightarrow> string"

text \<open>
  The \<^verbatim>\<open>while i < len(tokens)\<close> loop of \<^verbatim>\<open>chunk_text\<close>. Nothing in the source bounds
  \<^verbatim>\<open>chunk_size - chunk_overlap\<close> from below, so the loop may run forever; the result
  \<open>None\<close> stands for that.
\<close>

partial_function (option) chunk_loop ::
  "encoding \<Rightarrow> int list \<Rightarrow> int \<Rightarrow> int \<Rightarrow> int \<Rightarrow> string list \<Rightarrow> string list option" where
  "chunk_loop enc tokens chunk_size chunk_overlap i chunks =
     (if i < int (length tokens)
      then chunk_loop enc tokens chunk_size chunk_overlap (i + (chunk_size - chunk_overlap))
             (chunks @ [decode enc (py_slice tokens i (i + chunk_size))])
      else Some chunks)"

definition chunk_text :: "encoding \<Rightarrow> string \<Rightarrow> int \<Rightarrow> int \<Rightarrow> string list option" where
  "chunk_text enc txt chunk_size chunk_overlap =
     chunk_loop enc (encode enc txt) chunk_size chunk_overlap 0 []"

text \<open>
  The chunker as the specification words it: \<open>ceil (N / (W - O))\<close> chunks, the \<open>j\<close>-th
  one the slice that starts at \<open>j * (W - O)\<close> and has length \<open>min W (N - j * (W - O))\<close>.
\<close>

definition spec_steps :: "int \<Rightarrow> int \<Rightarrow> int \<Rightarrow> nat" where
  "spec_steps N W Ov = nat \<lceil>real_of_int N / real_of_int (W - Ov)\<rceil>"

definition spec_window :: "'a list \<Rightarrow> int \<Rightarrow> int \<Rightarrow> nat \<Rightarrow> 'a list" where
  "spec_window tokens W Ov j =
     take (nat (min W (int (length tokens) - int j * (W - Ov))))
       (drop (nat (int j * (W - Ov))) tokens)"

text \<open>The window of chunk \<open>j\<close> reaches the end of an \<open>N\<close>-token stream.\<close>

definition reaches_end :: "int \<Rightarrow> int \<Rightarrow> int \<Rightarrow> nat \<Rightarrow> bool" where
  "reaches_end N W Ov j \<longleftrightarrow> N \<le> int j * (W - Ov) + W"

text \<open>A tokenizer with one token per character, to run the chunker on.\<close>

definition char_enc :: encoding where
  "char_enc = \<lparr>encode = map (\<lambda>c. int (of_char c)), decode = map (\<lambda>t. char_of (nat t))\<rparr>"

text \<open>The number of iterations the loop still makes from offset \<open>i\<close>, for a stride \<open>s > 0\<close>.\<close>

definition loop_steps :: "int \<Rightarrow> int \<Rightarrow> int \<Rightarrow> nat" where
  "loop_steps N s i = nat (- ((i - N) div s))"

subsection \<open>Errors\<close>

text \<open>
  The exceptions the script can meet. \<open>ProviderError\<close> is whatever the embedding client
  raises, with its text.
\<close>

datatype error =
  AssertionError | ValueError | IOError | JSONDecodeError | ImportError
  | ProviderError string

subsection \<open>Document loader\<close>

record raw_doc =
  raw_content :: string
  url :: string

text \<open>
  What the loader sees of the file system under its path: whether the path is a directory,
  the paths \<^verbatim>\<open>glob.glob(os.path.join(path, "**/*.*"), recursive=True)\<close> lists, what opening
  and reading a path as UTF-8 text gives, and what PyMuPDF gives as the texts of a PDF's
  pages (\<open>Inl ImportError\<close> when it is not installed).
\<close>

record corpus =
  is_dir :: bool
  glob_result :: "string list"
  read_file :: "string \<Rightarrow> error + string"
  fitz_pages :: "string \<Rightarrow> error + string list"

text \<open>\<^verbatim>\<open>os.path.basename\<close>: what follows the last slash.\<close>

definition basename :: "string \<Rightarrow> string" where
  "basename p = rev (takeWhile (\<lambda>c. c \<noteq> CHR ''/'') (rev p))"

text \<open>
  The second component of \<^verbatim>\<open>os.path.splitext\<close>: from the last dot of the base name on,
  unless only dots precede it.
\<close>

definition splitext_ext :: "string \<Rightarrow> string" where
  "splitext_ext p =
     (let b = basename p;
          e = rev (takeWhile (\<lambda>c. c \<noteq> CHR ''.'') (rev b));
          stem = take (length b - length e - 1) b
      in if CHR ''.'' \<in> set b \<and> (\<exists>c \<in> set stem. c \<noteq> CHR ''.'') then CHR ''.'' # e else [])"

text \<open>\<^verbatim>\<open>str.lower\<close> and \<^verbatim>\<open>str.isspace\<close> on the code points below 256.\<close>

definition py_lower_char :: "char \<Rightarrow> char" where
  "py_lower_char c =
     (let n = (of_char c :: nat)
      in if (65 \<le> n \<and> n \<le> 90) \<or> (192 \<le> n \<and> n \<le> 222 \<and> n \<noteq> 215)
         then char_of (n + 32) else c)"

definition py_lower :: "string \<Rightarrow> string" where
  "py_lower s = map py_lower_char s"

definition py_isspace :: "char \<Rightarrow> bool" where
  "py_isspace c =
     (let n = (of_char c :: nat)
      in (9 \<le> n \<and> n \<le> 13) \<or> (28 \<le> n \<and> n \<le> 32) \<or> n = 133 \<or> n = 160)"

definition py_strip :: "string \<Rightarrow> string" where
  "py_strip s = rev (dropWhile py_isspace (rev (dropWhile py_isspace s)))"

text \<open>\<^verbatim>\<open>sep.join(parts)\<close>.\<close>

fun py_join :: "string \<Rightarrow> string list \<Rightarrow> string" where
  "py_join sep [] = []"
| "py_join sep [p] = p"
| "py_join sep (p # q # ps) = p @ sep @ py_join sep (q # ps)"

text \<open>One iteration of \<^verbatim>\<open>for fp in filepaths\<close>; a failed read is printed and skipped.\<close>

definition load_step :: "corpus \<Rightarrow> raw_doc list \<Rightarrow> string \<Rightarrow> raw_doc list" where
  "load_step c docs fp =
     (let ext = py_lower (splitext_ext fp)
      in if ext \<in> set [''.txt'', ''.md'', ''.csv''] then
           (case read_file c fp of
              Inl e \<Rightarrow> docs
            | Inr t \<Rightarrow>
                if py_strip t \<noteq> [] then docs @ [\<lparr>raw_content = t, url = basename fp\<rparr>]
                else docs)
         else if ext = ''.pdf'' then
           (case fitz_pages c fp of
              Inl e \<Rightarrow> docs
            | Inr text_parts \<Rightarrow>
                (let t = py_join [CHR 0x0A] text_parts
                 in if py_strip t \<noteq> [] then docs @ [\<lparr>raw_content = t, url = basename fp\<rparr>]
                    else docs))
         else docs)"

text \<open>\<^verbatim>\<open>DocumentLoader.load\<close>.\<close>

definition load :: "corpus \<Rightarrow> raw_doc list" where
  "load c = (if \<not> is_dir c then [] else foldl (load_step c) [] (glob_result c))"

text \<open>
  The loader as the specification words it, for one listed file: a file with a plain-text
  extension gives one document, its decoded text under its base name, when it is read and
  decoded; \<open>keep\<close> says which decoded texts give a document.
\<close>

definition is_plain_text :: "string \<Rightarrow> bool" where
  "is_plain_text fp \<longleftrightarrow> py_lower (splitext_ext fp) \<in> {''.txt'', ''.md'', ''.csv''}"

definition is_pdf :: "string \<Rightarrow> bool" where
  "is_pdf fp \<longleftrightarrow> py_lower (splitext_ext fp) = ''.pdf''"

definition spec_plain_doc :: "(string \<Rightarrow> bool) \<Rightarrow> corpus \<Rightarrow> string \<Rightarrow> raw_doc option" where
  "spec_plain_doc keep c fp =
     (case read_file c fp of
        Inl e \<Rightarrow> None
      | Inr t \<Rightarrow> if keep t then Some \<lparr>raw_content = t, url = basename fp\<rparr> else None)"

definition spec_pdf_doc :: "corpus \<Rightarrow> string \<Rightarrow> raw_doc option" where
  "spec_pdf_doc c fp =
     (case fitz_pages c fp of
        Inl e \<Rightarrow> None
      | Inr text_parts \<Rightarrow>
          if py_strip (py_join [CHR 0x0A] text_parts) \<noteq> []
          then Some \<lparr>raw_content = py_join [CHR 0x0A] text_parts, url = basename fp\<rparr>
          else None)"

definition spec_doc :: "(string \<Rightarrow> bool) \<Rightarrow> corpus \<Rightarrow> string \<Rightarrow> raw_doc option" where
  "spec_doc keep c fp =
     (if is_plain_text fp then spec_plain_doc keep c fp
      else if is_pdf fp then spec_pdf_doc c fp else None)"

text \<open>A directory that holds one empty text file.\<close>

definition empty_file_corpus :: corpus where
  "empty_file_corpus =
     \<lparr>is_dir = True, glob_result = [''./my-docs/a.txt''],
      read_file = (\<lambda>fp. Inr []), fitz_pages = (\<lambda>fp. Inl ImportError)\<rparr>"

text \<open>A directory that holds one text file and one file the loader does not read.\<close>

definition small_corpus :: corpus where
  "small_corpus =
     \<lparr>is_dir = True, glob_result = [''./my-docs/notes/A.TXT'', ''./my-docs/b.bin''],
      read_file = (\<lambda>fp. Inr ''hello''), fitz_pages = (\<lambda>fp. Inl ImportError)\<rparr>"

subsection \<open>The flat inner-product index\<close>

text \<open>
  \<^verbatim>\<open>faiss.IndexFlatIP\<close> as the script uses it: a dimension and the stored vectors, in the
  order they were added. \<^verbatim>\<open>add\<close> and \<^verbatim>\<open>search\<close> reject an array whose rows do not have
  the index's dimension, and \<^verbatim>\<open>search\<close> rejects \<open>k \<le> 0\<close>, each with an assertion.
  \<^verbatim>\<open>search\<close> returns \<open>k\<close> distances and \<open>k\<close> labels, best first; when fewer than \<open>k\<close>
  vectors are stored the rest is filled with the label \<open>-1\<close>. Among equal scores the
  earlier vector is taken first here.
\<close>

record faiss_index =
  faiss_d :: nat
  faiss_xb :: "real list list"

definition IndexFlatIP :: "nat \<Rightarrow> faiss_index" where
  "IndexFlatIP dm = \<lparr>faiss_d = dm, faiss_xb = []\<rparr>"

definition ntotal :: "faiss_index \<Rightarrow> nat" where
  "ntotal ix = length (faiss_xb ix)"

definition inner_product :: "real list \<Rightarrow> real list \<Rightarrow> real" where
  "inner_product x y = sum_list (map2 (*) x y)"

definition pad_distance :: real where
  "pad_distance = - 340282346638528859811704183484516925440"

definition index_add :: "faiss_index \<Rightarrow> real list list \<Rightarrow> error + faiss_index" where
  "index_add ix arr =
     (if \<forall>row \<in> set arr. length row = faiss_d ix
      then Inr (ix\<lparr>faiss_xb := faiss_xb ix @ arr\<rparr>) else Inl AssertionError)"

definition ranking :: "faiss_index \<Rightarrow> real list \<Rightarrow> nat list" where
  "ranking ix x =
     sort_key (\<lambda>i. - inner_product x (faiss_xb ix ! i)) [0..<ntotal ix]"

definition index_search ::
  "faiss_index \<Rightarrow> real list \<Rightarrow> int \<Rightarrow> error + (real list \<times> int list)" where
  "index_search ix x k =
     (if length x \<noteq> faiss_d ix \<or> k \<le> 0 then Inl AssertionError
      else (let best = take (nat k) (ranking ix x);
                pad = nat k - length best
            in Inr (map (\<lambda>i. inner_product x (faiss_xb ix ! i)) best @ replicate pad pad_distance,
                    map int best @ replicate pad (- 1))))"

text \<open>
  \<^verbatim>\<open>np.array(embeddings, dtype="float32")\<close> on a non-empty list of rows: rows of unequal
  length are refused.
\<close>

definition np_array :: "real list list \<Rightarrow> error + real list list" where
  "np_array rows =
     (if \<forall>row \<in> set rows. length row = length (hd rows) then Inr rows else Inl ValueError)"

subsection \<open>Vector store\<close>

text \<open>
  An entry of \<^verbatim>\<open>doc_meta\<close> is a dictionary with the two keys the build writes, and a
  search result one with the three keys \<^verbatim>\<open>search\<close> writes.
\<close>

record chunk_meta =
  text_chunk :: string
  source :: string

record hit =
  hit_score :: real
  hit_text :: string
  hit_source :: string

text \<open>
  The field \<^verbatim>\<open>index\<close> is \<^verbatim>\<open>None\<close> only between the generated \<^verbatim>\<open>__init__\<close> and
  \<^verbatim>\<open>__post_init__\<close>, which sets it or raises; the record is the object after that.
\<close>

record LocalVectorStore =
  dimension :: nat
  index_path :: string
  index :: faiss_index
  doc_meta :: "chunk_meta list"

text \<open>
  The files of the working directory, by path. The two artifacts of a store are held as
  the values they serialise; any other content is \<open>OtherFile\<close>.
\<close>

datatype file_content =
  IndexFile faiss_index | MetaFile "chunk_meta list" | OtherFile string

type_synonym files = "string \<rightharpoonup> file_content"

definition read_index :: "string \<Rightarrow> files \<Rightarrow> error + faiss_index" where
  "read_index path fs = (case fs path of Some (IndexFile ix) \<Rightarrow> Inr ix | _ \<Rightarrow> Inl IOError)"

definition write_index :: "faiss_index \<Rightarrow> string \<Rightarrow> files \<Rightarrow> files" where
  "write_index ix path fs = fs(path \<mapsto> IndexFile ix)"

definition json_load :: "string \<Rightarrow> files \<Rightarrow> error + chunk_meta list" where
  "json_load path fs =
     (case fs path of
        None \<Rightarrow> Inl IOError
      | Some (MetaFile ms) \<Rightarrow> Inr ms
      | Some _ \<Rightarrow> Inl JSONDecodeError)"

definition json_dump :: "chunk_meta list \<Rightarrow> string \<Rightarrow> files \<Rightarrow> files" where
  "json_dump ms path fs = fs(path \<mapsto> MetaFile ms)"

text \<open>\<^verbatim>\<open>_load_index\<close>.\<close>

definition load_index :: "LocalVectorStore \<Rightarrow> files \<Rightarrow> error + LocalVectorStore" where
  "load_index st fs =
     (case read_index (index_path st @ ''.faiss'') fs of
        Inl e \<Rightarrow> Inl e
      | Inr ix \<Rightarrow>
          (case json_load (index_path st @ ''.meta.json'') fs of
             Inl e \<Rightarrow> Inl e
           | Inr ms \<Rightarrow> Inr (st\<lparr>index := ix, doc_meta := ms\<rparr>)))"

text \<open>
  The constructor: the generated \<^verbatim>\<open>__init__\<close> with the default \<^verbatim>\<open>doc_meta\<close>, then
  \<^verbatim>\<open>__post_init__\<close>, which tests \<^verbatim>\<open>os.path.exists(self.index_path)\<close>.
\<close>

definition new_LocalVectorStore :: "nat \<Rightarrow> string \<Rightarrow> files \<Rightarrow> error + LocalVectorStore" where
  "new_LocalVectorStore dm path fs =
     (let st = \<lparr>dimension = dm, index_path = path, index = IndexFlatIP dm, doc_meta = []\<rparr>
      in if path \<in> dom fs then load_index st fs else Inr st)"

definition add_embeddings ::
  "LocalVectorStore \<Rightarrow> real list list \<Rightarrow> chunk_meta list \<Rightarrow> error + LocalVectorStore" where
  "add_embeddings st embeddings metas =
     (if embeddings = [] then Inr st
      else (case np_array embeddings of
              Inl e \<Rightarrow> Inl e
            | Inr arr \<Rightarrow>
                (case index_add (index st) arr of
                   Inl e \<Rightarrow> Inl e
                 | Inr ix \<Rightarrow> Inr (st\<lparr>index := ix, doc_meta := doc_meta st @ metas\<rparr>))))"

definition save :: "LocalVectorStore \<Rightarrow> files \<Rightarrow> files" where
  "save st fs =
     json_dump (doc_meta st) (index_path st @ ''.meta.json'')
       (write_index (index st) (index_path st @ ''.faiss'') fs)"

text \<open>The \<^verbatim>\<open>for dist, i in zip(distances[0], idxs[0])\<close> loop of \<^verbatim>\<open>search\<close>.\<close>

fun search_loop :: "chunk_meta list \<Rightarrow> (real \<times> int) list \<Rightarrow> hit list \<Rightarrow> hit list" where
  "search_loop metas [] results = results"
| "search_loop metas ((dst, i) # rest) results =
     (if i < 0 \<or> i \<ge> int (length metas) then search_loop metas rest results
      else search_loop metas rest
             (results @ [\<lparr>hit_score = dst,
                          hit_text = text_chunk (metas ! nat i),
                          hit_source = source (metas ! nat i)\<rparr>]))"

definition search :: "LocalVectorStore \<Rightarrow> real list \<Rightarrow> int \<Rightarrow> error + hit list" where
  "search st embedding k =
     (case index_search (index st) embedding k of
        Inl e \<Rightarrow> Inl e
      | Inr (distances, idxs) \<Rightarrow> Inr (search_loop (doc_meta st) (zip distances idxs) []))"

text \<open>The result \<^verbatim>\<open>search\<close> builds for the stored entry \<open>i\<close>.\<close>

definition hit_of :: "LocalVectorStore \<Rightarrow> real list \<Rightarrow> nat \<Rightarrow> hit" where
  "hit_of st q i =
     \<lparr>hit_score = inner_product q (faiss_xb (index st) ! i),
      hit_text = text_chunk (doc_meta st ! i),
      hit_source = source (doc_meta st ! i)\<rparr>"

text \<open>The operations on a store, for runs of them.\<close>

datatype store_op =
  AppendBatch "real list list" "chunk_meta list" | Persist | Search "real list" int

text \<open>
  An operation that raises leaves the store as it was: \<^verbatim>\<open>add_embeddings\<close> changes nothing
  before \<^verbatim>\<open>index.add\<close> has accepted the array.
\<close>

fun run_op :: "LocalVectorStore \<times> files \<Rightarrow> store_op \<Rightarrow> LocalVectorStore \<times> files" where
  "run_op (st, fs) (AppendBatch embeddings metas) =
     (case add_embeddings st embeddings metas of Inl e \<Rightarrow> (st, fs) | Inr st' \<Rightarrow> (st', fs))"
| "run_op (st, fs) Persist = (st, save st fs)"
| "run_op (st, fs) (Search q k) = (st, fs)"

definition batch_ok :: "store_op \<Rightarrow> bool" where
  "batch_ok op = (case op of AppendBatch embeddings metas \<Rightarrow> length embeddings = length metas
                  | _ \<Rightarrow> True)"

text \<open>A store of two entries in dimension 2, and one whose index and metadata disagree.\<close>

definition two_store :: LocalVectorStore where
  "two_store =
     \<lparr>dimension = 2, index_path = ''local_docs.index'',
      index = \<lparr>faiss_d = 2, faiss_xb = [[1, 0], [0, 1]]\<rparr>,
      doc_meta = [\<lparr>text_chunk = ''alpha'', source = ''a.txt''\<rparr>,
                  \<lparr>text_chunk = ''beta'', source = ''b.txt''\<rparr>]\<rparr>"

definition skewed_store :: LocalVectorStore where
  "skewed_store = two_store\<lparr>doc_meta := [\<lparr>text_chunk = ''alpha'', source = ''a.txt''\<rparr>]\<rparr>"

text \<open>
  A run on a new store of dimension 2: an append of two entries, a save, a search, and an
  append the index refuses.
\<close>

definition empty_store2 :: LocalVectorStore where
  "empty_store2 =
     \<lparr>dimension = 2, index_path = ''local_docs.index'', index = IndexFlatIP 2, doc_meta = []\<rparr>"

definition demo_ops :: "store_op list" where
  "demo_ops =
     [AppendBatch [[1, 0], [0, 1]]
        [\<lparr>text_chunk = ''alpha'', source = ''a.txt''\<rparr>, \<lparr>text_chunk = ''beta'', source = ''b.txt''\<rparr>],
      Persist, Search [1, 0] 1,
      AppendBatch [[1]] [\<lparr>text_chunk = ''gamma'', source = ''c.txt''\<rparr>]]"

subsection \<open>The build path and the retrieval entry point\<close>

text \<open>
  What the two functions read and change outside the store: the files of the working
  directory, the directory \<^verbatim>\<open>./my-docs\<close>, the environment variable, the tokenizer and the
  embedding client. The client's answer may differ from call to call, so it is a function
  of the call's number and input; \<open>embed_calls\<close>, \<open>loader_runs\<close> and \<open>chunker_runs\<close>
  count the calls made, and \<open>error_log\<close> holds the source and the exception of each
  \<^verbatim>\<open>[ERROR] Embedding error\<close> line printed. \<open>exc_text\<close> is \<^verbatim>\<open>str(e)\<close> and \<open>fmt_score\<close>
  the format \<^verbatim>\<open>.3f\<close>; the other printed lines are left out.
\<close>

record world =
  disk :: files
  my_docs :: corpus
  api_key :: string
  tokenizer :: encoding
  provider :: "nat \<Rightarrow> string \<Rightarrow> error + real list"
  embed_calls :: nat
  loader_runs :: nat
  chunker_runs :: nat
  error_log :: "(string \<times> error) list"
  exc_text :: "error \<Rightarrow> string"
  fmt_score :: "real \<Rightarrow> string"

text \<open>\<^verbatim>\<open>client.embeddings.create(model=..., input=...).data[0].embedding\<close>.\<close>

definition embed_call :: "world \<Rightarrow> string \<Rightarrow> (error + real list) \<times> world" where
  "embed_call w inp = (provider w (embed_calls w) inp, w\<lparr>embed_calls := Suc (embed_calls w)\<rparr>)"

text \<open>The inner loop \<^verbatim>\<open>for ch in chunked\<close>, with its \<^verbatim>\<open>try\<close>.\<close>

fun embed_chunks ::
  "string \<Rightarrow> string list \<Rightarrow> world \<times> real list list \<times> chunk_meta list \<Rightarrow>
   world \<times> real list list \<times> chunk_meta list" where
  "embed_chunks src [] acc = acc"
| "embed_chunks src (ch # chs) (w, all_embeddings, all_metas) =
     (case embed_call w ch of
        (Inl e, w') \<Rightarrow>
          embed_chunks src chs
            (w'\<lparr>error_log := error_log w' @ [(src, e)]\<rparr>, all_embeddings, all_metas)
      | (Inr embedding, w') \<Rightarrow>
          embed_chunks src chs
            (w', all_embeddings @ [embedding],
             all_metas @ [\<lparr>text_chunk = ch, source = src\<rparr>]))"

text \<open>The outer loop \<^verbatim>\<open>for d in docs\<close>; \<^verbatim>\<open>chunk_text\<close> is called with its defaults.\<close>

fun embed_docs ::
  "raw_doc list \<Rightarrow> world \<times> real list list \<times> chunk_meta list \<Rightarrow>
   (world \<times> real list list \<times> chunk_meta list) option" where
  "embed_docs [] acc = Some acc"
| "embed_docs (dc # ds) (w, all_embeddings, all_metas) =
     (case chunk_text (tokenizer w) (raw_content dc) 600 100 of
        None \<Rightarrow> None
      | Some chunked \<Rightarrow>
          embed_docs ds
            (embed_chunks (url dc) chunked
               (w\<lparr>chunker_runs := Suc (chunker_runs w)\<rparr>, all_embeddings, all_metas)))"

definition ensure_vectorstore_build :: "world \<Rightarrow> ((error + LocalVectorStore) \<times> world) option" where
  "ensure_vectorstore_build w =
     (case new_LocalVectorStore 1536 ''local_docs.index'' (disk w) of
        Inl e \<Rightarrow> Some (Inl e, w)
      | Inr store \<Rightarrow>
          if length (doc_meta store) > 0 \<and> ntotal (index store) > 0 then Some (Inr store, w)
          else (let w1 = w\<lparr>loader_runs := Suc (loader_runs w)\<rparr>;
                    docs = load (my_docs w1)
                in if docs = [] then Some (Inr store, w1)
                   else if api_key w1 = [] then Some (Inr store, w1)
                   else (case embed_docs docs (w1, [], []) of
                           None \<Rightarrow> None
                         | Some (w2, all_embeddings, all_metas) \<Rightarrow>
                             (case add_embeddings store all_embeddings all_metas of
                                Inl e \<Rightarrow> Some (Inl e, w2)
                              | Inr store' \<Rightarrow>
                                  Some (Inr store', w2\<lparr>disk := save store' (disk w2)\<rparr>)))))"

text \<open>Decimal digits of a rank, and the loop that renders the results.\<close>

fun show_nat :: "nat \<Rightarrow> string" where
  "show_nat n =
     (if n < 10 then [char_of (48 + n)] else show_nat (n div 10) @ [char_of (48 + n mod 10)])"

fun render :: "(real \<Rightarrow> string) \<Rightarrow> nat \<Rightarrow> hit list \<Rightarrow> string \<Rightarrow> string" where
  "render fmt i [] out = out"
| "render fmt i (r # rs) out =
     render fmt (Suc i) rs
       (out @ [CHR 0x0A] @ ''---'' @ [CHR 0x0A] @ ''[Rank '' @ show_nat (i + 1) @ '' | Score=''
          @ fmt (hit_score r) @ '' | Source='' @ hit_source r @ '']'' @ [CHR 0x0A] @ hit_text r)"

text \<open>
  \<^verbatim>\<open>search_local_docs\<close>: the value of the \<^verbatim>\<open>Result\<close> it returns. Every exception raised
  inside is caught by its \<^verbatim>\<open>except Exception\<close>.
\<close>

definition search_local_docs :: "world \<Rightarrow> string \<Rightarrow> int \<Rightarrow> (string \<times> world) option" where
  "search_local_docs w query top_k =
     (case ensure_vectorstore_build w of
        None \<Rightarrow> None
      | Some (Inl e, w1) \<Rightarrow> Some (''Error in RAG search: '' @ exc_text w1 e, w1)
      | Some (Inr store, w1) \<Rightarrow>
          if ntotal (index store) = 0
          then Some (''No documents found in vector store. Place docs in ./my-docs.'', w1)
          else if api_key w1 = [] then Some (''No OPENAI_API_KEY. Cannot embed queries.'', w1)
          else (case embed_call w1 query of
                  (Inl e, w2) \<Rightarrow> Some (''Error in RAG search: '' @ exc_text w2 e, w2)
                | (Inr q_embed, w2) \<Rightarrow>
                    (case search store q_embed top_k of
                       Inl e \<Rightarrow> Some (''Error in RAG search: '' @ exc_text w2 e, w2)
                     | Inr results \<Rightarrow>
                         if results = [] then Some (''No relevant docs found.'', w2)
                         else Some (py_strip (render (fmt_score w2) 0 results []), w2))))"

text \<open>
  The chunks the build sends to the client, each with its source, in the order of the
  calls; and the entries a run of calls from call number \<open>n\<close> on leaves: one per call that
  returns.
\<close>

definition default_chunks :: "encoding \<Rightarrow> string \<Rightarrow> string list" where
  "default_chunks ec txt =
     map (\<lambda>j. decode ec (spec_window (encode ec txt) 600 100 j))
       [0..<loop_steps (int (length (encode ec txt))) 500 0]"

definition jobs_of :: "encoding \<Rightarrow> raw_doc list \<Rightarrow> (string \<times> string) list" where
  "jobs_of ec docs = concat (map (\<lambda>dc. map (\<lambda>ch. (ch, url dc)) (default_chunks ec (raw_content dc))) docs)"

fun embedded ::
  "(nat \<Rightarrow> string \<Rightarrow> error + real list) \<Rightarrow> nat \<Rightarrow> (string \<times> string) list \<Rightarrow>
   (real list \<times> chunk_meta) list" where
  "embedded prov n [] = []"
| "embedded prov n ((ch, src) # jobs) =
     (case prov n ch of
        Inl e \<Rightarrow> embedded prov (Suc n) jobs
      | Inr v \<Rightarrow> (v, \<lparr>text_chunk = ch, source = src\<rparr>) # embedded prov (Suc n) jobs)"

fun failures ::
  "(nat \<Rightarrow> string \<Rightarrow> error + real list) \<Rightarrow> nat \<Rightarrow> (string \<times> string) list \<Rightarrow>
   (string \<times> error) list" where
  "failures prov n [] = []"
| "failures prov n ((ch, src) # jobs) =
     (case prov n ch of
        Inl e \<Rightarrow> (src, e) # failures prov (Suc n) jobs
      | Inr v \<Rightarrow> failures prov (Suc n) jobs)"

text \<open>
  The store and the world a build leaves when it starts from no store and every vector
  the client returns has the dimension 1536, in closed form.
\<close>

definition built_store :: "world \<Rightarrow> LocalVectorStore" where
  "built_store w =
     (let emb = embedded (provider w) (embed_calls w) (jobs_of (tokenizer w) (load (my_docs w)))
      in \<lparr>dimension = 1536, index_path = ''local_docs.index'',
          index = \<lparr>faiss_d = 1536, faiss_xb = map fst emb\<rparr>, doc_meta = map snd emb\<rparr>)"

definition built_world :: "world \<Rightarrow> world" where
  "built_world w =
     w\<lparr>disk := save (built_store w) (disk w),
       embed_calls := embed_calls w + length (jobs_of (tokenizer w) (load (my_docs w))),
       loader_runs := Suc (loader_runs w),
       chunker_runs := chunker_runs w + length (load (my_docs w)),
       error_log := error_log w @
          failures (provider w) (embed_calls w) (jobs_of (tokenizer w) (load (my_docs w)))\<rparr>"

text \<open>
  Worlds to run the two functions on: three short text files, a client that fails on its
  second call only, and no file in the working directory; the same with a store already
  on disk under all three names and a client that always fails; and that one without the
  environment variable.
\<close>

definition three_corpus :: corpus where
  "three_corpus =
     \<lparr>is_dir = True,
      glob_result = [''./my-docs/a.txt'', ''./my-docs/b.txt'', ''./my-docs/c.txt''],
      read_file = (\<lambda>fp. if fp = ''./my-docs/a.txt'' then Inr ''alpha''
                        else if fp = ''./my-docs/b.txt'' then Inr ''beta'' else Inr ''gamma''),
      fitz_pages = (\<lambda>fp. Inl ImportError)\<rparr>"

definition flaky_provider :: "nat \<Rightarrow> string \<Rightarrow> error + real list" where
  "flaky_provider n inp =
     (if n = 1 then Inl (ProviderError ''timeout'') else Inr (replicate 1536 0))"

definition demo_world :: world where
  "demo_world =
     \<lparr>disk = Map.empty, my_docs = three_corpus, api_key = ''sk-test'',
      tokenizer = char_enc, provider = flaky_provider,
      embed_calls = 0, loader_runs = 0, chunker_runs = 0, error_log = [],
      exc_text = (\<lambda>e. case e of ProviderError m \<Rightarrow> m | _ \<Rightarrow> []),
      fmt_score = (\<lambda>x. ''0.000'')\<rparr>"

definition loaded_world :: world where
  "loaded_world =
     demo_world\<lparr>disk := [''local_docs.index'' \<mapsto> OtherFile [],
                           ''local_docs.index.faiss'' \<mapsto> IndexFile (index two_store),
                           ''local_docs.index.meta.json'' \<mapsto> MetaFile (doc_meta two_store)],
                 provider := (\<lambda>n inp. Inl (ProviderError ''timeout''))\<rparr>"

definition nokey_world :: world where
  "nokey_world = loaded_world\<lparr>api_key := []\<rparr>"

section \<open>Lemmas and claims\<close>

subsection \<open>Chunker: the loop in closed form\<close>

lemma loop_steps_done: "0 < s \<Longrightarrow> N \<le> i \<Longrightarrow> loop_steps N s i = 0"
  by (simp add: loop_steps_def pos_imp_zdiv_nonneg_iff)

lemma loop_steps_more:
  assumes "0 < s" "i < N"
  shows "loop_steps N s i = Suc (loop_steps N s (i + s))"
proof -
  have "i + s - N = (i - N) + s" by simp
  then have a: "(i + s - N) div s = (i - N) div s + 1"
    using assms(1) by (metis div_add_self2 less_irrefl)
  have "(i - N) div s < 0"
    using assms by (simp add: pos_imp_zdiv_neg_iff)
  then show ?thesis
    unfolding loop_steps_def a by simp
qed

lemma chunk_loop_closed:
  assumes "0 < W - Ov"
  shows "chunk_loop enc tokens W Ov i acc =
           Some (acc @ map (\<lambda>m. decode enc (py_slice tokens (i + int m * (W - Ov))
                                              (i + int m * (W - Ov) + W)))
                        [0..<loop_steps (int (length tokens)) (W - Ov) i])"
proof (induction "nat (int (length tokens) - i)" arbitrary: i acc rule: less_induct)
  case less
  show ?case
  proof (cases "i < int (length tokens)")
    case False
    then show ?thesis
      using assms by (subst chunk_loop.simps) (simp add: loop_steps_done)
  next
    case True
    have "nat (int (length tokens) - (i + (W - Ov))) < nat (int (length tokens) - i)"
      using True assms by simp
    note ih = less[OF this]
    have st: "loop_steps (int (length tokens)) (W - Ov) i =
              Suc (loop_steps (int (length tokens)) (W - Ov) (i + (W - Ov)))"
      using loop_steps_more[OF assms True] .
    show ?thesis
      apply (subst chunk_loop.simps)
      apply (simp only: True if_True ih st map_upt_Suc)
      apply (simp add: algebra_simps)
      done
  qed
qed

lemma loop_steps_less_iff:
  assumes "0 < s"
  shows "j < loop_steps N s 0 \<longleftrightarrow> int j * s < N"
proof -
  define q where "q = (- N) div s"
  define r where "r = (- N) mod s"
  have N: "- N = q * s + r" and r: "0 \<le> r" "r < s"
    using assms by (simp_all add: q_def r_def)
  have K: "loop_steps N s 0 = nat (- q)"
    by (simp add: loop_steps_def q_def)
  show ?thesis
  proof
    assume "j < loop_steps N s 0"
    then have "q + 1 \<le> - int j" unfolding K by linarith
    then have "(q + 1) * s \<le> (- int j) * s"
      using assms by (intro mult_right_mono) simp_all
    then show "int j * s < N" using N r by (simp add: algebra_simps)
  next
    assume a: "int j * s < N"
    have "\<not> - int j \<le> q"
    proof
      assume "- int j \<le> q"
      then have "(- int j) * s \<le> q * s"
        using assms by (intro mult_right_mono) simp_all
      then show False using a N r by (simp add: algebra_simps)
    qed
    then show "j < loop_steps N s 0" unfolding K by linarith
  qed
qed

lemma spec_steps_loop_steps: "spec_steps N W Ov = loop_steps N (W - Ov) 0"
  unfolding spec_steps_def loop_steps_def ceiling_divide_eq_div by simp

lemma py_slice_window:
  assumes "0 < W" "int j * (W - Ov) < int (length tokens)" "0 \<le> W - Ov"
  shows "py_slice tokens (int j * (W - Ov)) (int j * (W - Ov) + W) =
         spec_window tokens W Ov j"
proof -
  have "0 \<le> int j * (W - Ov)" using assms(3) by simp
  then show ?thesis
    using assms(1,2) by (simp add: py_slice_def spec_window_def Let_def min_def)
qed

lemma chunk_text_closed:
  assumes "0 \<le> Ov" "Ov < W"
  shows "chunk_text enc txt W Ov =
           Some (map (\<lambda>j. decode enc (spec_window (encode enc txt) W Ov j))
                   [0..<loop_steps (int (length (encode enc txt))) (W - Ov) 0])"
proof -
  have s: "0 < W - Ov" and w: "0 < W" using assms by simp_all
  have "map (\<lambda>m. decode enc (py_slice (encode enc txt) (0 + int m * (W - Ov))
                                 (0 + int m * (W - Ov) + W)))
          [0..<loop_steps (int (length (encode enc txt))) (W - Ov) 0] =
        map (\<lambda>j. decode enc (spec_window (encode enc txt) W Ov j))
          [0..<loop_steps (int (length (encode enc txt))) (W - Ov) 0]"
    using s w by (intro map_cong refl) (simp add: py_slice_window loop_steps_less_iff)
  then show ?thesis
    unfolding chunk_text_def chunk_loop_closed[OF s] by simp
qed

lemma length_spec_window:
  assumes "0 < W" "int j * (W - Ov) < int (length tokens)" "0 \<le> W - Ov"
  shows "length (spec_window tokens W Ov j) = nat (min W (int (length tokens) - int j * (W - Ov)))"
proof -
  have "0 \<le> int j * (W - Ov)" using assms(3) by simp
  then show ?thesis
    using assms(1,2) by (simp add: spec_window_def min_def) linarith
qed

lemma loop_steps_last:
  assumes "0 < s" "0 < N"
  shows "0 < loop_steps N s 0"
    and "int (loop_steps N s 0 - 1) * s < N"
    and "N \<le> int (loop_steps N s 0 - 1) * s + s"
proof -
  have "int 0 * s < N" using assms by simp
  then show p: "0 < loop_steps N s 0"
    using loop_steps_less_iff[OF assms(1), of 0 N] by simp
  then have "loop_steps N s 0 - 1 < loop_steps N s 0" by simp
  then show "int (loop_steps N s 0 - 1) * s < N"
    using loop_steps_less_iff[OF assms(1)] by blast
  obtain k where k: "loop_steps N s 0 = Suc k"
    using p by (cases "loop_steps N s 0") simp_all
  have "\<not> int (Suc k) * s < N"
    using loop_steps_less_iff[OF assms(1), of "Suc k" N] k by simp
  then show "N \<le> int (loop_steps N s 0 - 1) * s + s"
    unfolding k by (simp add: algebra_simps)
qed

subsection \<open>Chunker: the claims\<close>

text \<open>
  C2. For a text of \<open>N\<close> tokens and \<open>0 \<le> O < W\<close>, \<open>chunk_text\<close> returns, and returns
  exactly \<open>ceil (N / (W - O))\<close> chunks; chunk \<open>j\<close> is the decoding of the slice that
  starts at \<open>j * (W - O)\<close> and has \<open>min W (N - j * (W - O))\<close> tokens, so the first starts
  at 0 and each start is \<open>W - O\<close> after the one before; the last chunk has
  \<open>N - (steps - 1) * (W - O)\<close> tokens.
\<close>

theorem chunk_text_windows:
  assumes "0 \<le> Ov" "Ov < W"
  shows "chunk_text enc txt W Ov =
           Some (map (\<lambda>j. decode enc (spec_window (encode enc txt) W Ov j))
                   [0..<spec_steps (int (length (encode enc txt))) W Ov])
         \<and> (\<forall>j < spec_steps (int (length (encode enc txt))) W Ov.
               spec_window (encode enc txt) W Ov j =
                 take (nat (min W (int (length (encode enc txt)) - int j * (W - Ov))))
                   (drop (nat (int j * (W - Ov))) (encode enc txt))
               \<and> length (spec_window (encode enc txt) W Ov j) =
                 nat (min W (int (length (encode enc txt)) - int j * (W - Ov))))
         \<and> (encode enc txt \<noteq> [] \<longrightarrow>
               length (spec_window (encode enc txt) W Ov
                        (spec_steps (int (length (encode enc txt))) W Ov - 1)) =
               nat (int (length (encode enc txt))
                    - int (spec_steps (int (length (encode enc txt))) W Ov - 1) * (W - Ov)))"
proof -
  let ?N = "int (length (encode enc txt))"
  have s: "0 < W - Ov" and s0: "0 \<le> W - Ov" and w: "0 < W" using assms by simp_all
  have st: "spec_steps ?N W Ov = loop_steps ?N (W - Ov) 0"
    using spec_steps_loop_steps .
  have a: "chunk_text enc txt W Ov =
           Some (map (\<lambda>j. decode enc (spec_window (encode enc txt) W Ov j))
                   [0..<spec_steps ?N W Ov])"
    unfolding st using chunk_text_closed[OF assms] .
  have b: "\<forall>j < spec_steps ?N W Ov.
               spec_window (encode enc txt) W Ov j =
                 take (nat (min W (?N - int j * (W - Ov))))
                   (drop (nat (int j * (W - Ov))) (encode enc txt))
               \<and> length (spec_window (encode enc txt) W Ov j) =
                 nat (min W (?N - int j * (W - Ov)))"
    unfolding st using length_spec_window[OF w _ s0] loop_steps_less_iff[OF s]
    by (auto simp: spec_window_def)
  have c: "encode enc txt \<noteq> [] \<longrightarrow>
           length (spec_window (encode enc txt) W Ov (spec_steps ?N W Ov - 1)) =
           nat (?N - int (spec_steps ?N W Ov - 1) * (W - Ov))"
  proof
    assume ne: "encode enc txt \<noteq> []"
    have n: "0 < ?N" using ne by simp
    note l = loop_steps_last[OF s n]
    have "min W (?N - int (loop_steps ?N (W - Ov) 0 - 1) * (W - Ov)) =
          ?N - int (loop_steps ?N (W - Ov) 0 - 1) * (W - Ov)"
      using l(3) assms(1) by simp
    then show "length (spec_window (encode enc txt) W Ov (spec_steps ?N W Ov - 1)) =
           nat (?N - int (spec_steps ?N W Ov - 1) * (W - Ov))"
      unfolding st using length_spec_window[OF w l(2) s0] by simp
  qed
  show ?thesis by (intro conjI a b c)
qed

theorem chunk_text_windows_witness:
  "(0::int) \<le> 1 \<and> (1::int) < 3 \<and>
   chunk_text char_enc ''abcde'' 3 1 = Some [''abc'', ''cde'', ''e''] \<and>
   spec_steps 5 3 1 = 3 \<and> length (spec_window (encode char_enc ''abcde'') 3 1 2) = 1"
proof -
  have h1: "(0::int) \<le> 1" and h2: "(1::int) < 3" by simp_all
  have st: "spec_steps 5 3 1 = 3"
    using spec_steps_loop_steps[of 5 3 1] by (simp add: loop_steps_def)
  have ne: "encode char_enc ''abcde'' \<noteq> []" by (simp add: char_enc_def)
  have len: "int (length (encode char_enc ''abcde'')) = 5" by (simp add: char_enc_def)
  note t = chunk_text_windows[OF h1 h2, of char_enc "''abcde''", unfolded len st]
  have "map (\<lambda>j. decode char_enc (spec_window (encode char_enc ''abcde'') 3 1 j)) [0..<3] =
        [''abc'', ''cde'', ''e'']"
    by code_simp
  then have "chunk_text char_enc ''abcde'' 3 1 = Some [''abc'', ''cde'', ''e'']"
    using t by simp
  moreover have "length (spec_window (encode char_enc ''abcde'') 3 1 2) = 1"
    using t[THEN conjunct2, THEN conjunct2] ne by simp
  ultimately show ?thesis using st by simp
qed

text \<open>
  C3, as stated, fails: with \<open>O > 0\<close> a chunk that already reaches the end of the stream
  can be followed by another one, since the loop tests the next start offset only. On the
  three tokens of \<open>''abc''\<close> with \<open>W = 3\<close>, \<open>O = 1\<close> the first chunk holds the final token and
  a second chunk, holding it again, is emitted.
\<close>

theorem chunk_text_final_token_twice:
  "chunk_text char_enc ''abc'' 3 1 = Some [''abc'', ''c'']
   \<and> length (encode char_enc ''abc'') = 3
   \<and> reaches_end 3 3 1 0 \<and> reaches_end 3 3 1 1"
proof -
  have "map (\<lambda>j. decode char_enc (spec_window (encode char_enc ''abc'') 3 1 j))
          [0..<loop_steps (int (length (encode char_enc ''abc''))) (3 - 1) 0] = [''abc'', ''c'']"
    by code_simp
  then have "chunk_text char_enc ''abc'' 3 1 = Some [''abc'', ''c'']"
    using chunk_text_closed[of 1 3 char_enc "''abc''"] by simp
  then show ?thesis
    by (simp add: reaches_end_def char_enc_def)
qed

text \<open>
  C3, amended. For a non-empty token stream and \<open>0 \<le> O < W\<close>, \<open>chunk_text\<close> returns a
  non-empty list, every chunk starts before the end of the stream, and chunk \<open>j\<close> is the
  last one exactly when the next start \<open>(j + 1) * (W - O)\<close> is at or past the end. So the
  last chunk reaches the end of the stream, every chunk after one that reaches the end
  reaches it too, and with \<open>O = 0\<close> exactly one chunk holds the final token.
\<close>

theorem chunk_text_stops:
  assumes "encode enc txt \<noteq> []" "0 \<le> Ov" "Ov < W"
  shows "\<exists>cs. chunk_text enc txt W Ov = Some cs \<and> cs \<noteq> []
           \<and> reaches_end (int (length (encode enc txt))) W Ov (length cs - 1)
           \<and> (\<forall>j < length cs. int j * (W - Ov) < int (length (encode enc txt)))
           \<and> (\<forall>j < length cs. Suc j = length cs \<longleftrightarrow>
                  int (length (encode enc txt)) \<le> int (Suc j) * (W - Ov))
           \<and> (\<forall>j j'. reaches_end (int (length (encode enc txt))) W Ov j \<longrightarrow> j \<le> j' \<longrightarrow>
                  reaches_end (int (length (encode enc txt))) W Ov j')
           \<and> (Ov = 0 \<longrightarrow>
                {j. j < length cs \<and> reaches_end (int (length (encode enc txt))) W Ov j} =
                {length cs - 1})"
proof -
  let ?N = "int (length (encode enc txt))"
  let ?K = "loop_steps ?N (W - Ov) 0"
  let ?cs = "map (\<lambda>j. decode enc (spec_window (encode enc txt) W Ov j)) [0..<?K]"
  have s: "0 < W - Ov" using assms by simp
  have n: "0 < ?N" using assms(1) by simp
  note l = loop_steps_last[OF s n]
  note iff = loop_steps_less_iff[OF s, of _ ?N]
  have len: "length ?cs = ?K" by simp
  have a: "chunk_text enc txt W Ov = Some ?cs" using chunk_text_closed[OF assms(2,3)] .
  have b: "?cs \<noteq> []" using l(1) by simp
  have c: "reaches_end ?N W Ov (?K - 1)"
    using l(3) assms(2) by (simp add: reaches_end_def)
  have d: "\<forall>j < ?K. int j * (W - Ov) < ?N" using iff by blast
  have e: "\<forall>j < ?K. Suc j = ?K \<longleftrightarrow> ?N \<le> int (Suc j) * (W - Ov)"
  proof (intro allI impI)
    fix j assume j: "j < ?K"
    have "Suc j < ?K \<longleftrightarrow> int (Suc j) * (W - Ov) < ?N" using iff[of "Suc j"] .
    then show "Suc j = ?K \<longleftrightarrow> ?N \<le> int (Suc j) * (W - Ov)" using j by linarith
  qed
  have f: "\<forall>j j'. reaches_end ?N W Ov j \<longrightarrow> j \<le> j' \<longrightarrow> reaches_end ?N W Ov j'"
  proof (intro allI impI)
    fix j j' assume r: "reaches_end ?N W Ov j" and le: "j \<le> j'"
    have "int j * (W - Ov) \<le> int j' * (W - Ov)"
      using le s by (intro mult_right_mono) simp_all
    then show "reaches_end ?N W Ov j'" using r by (simp add: reaches_end_def)
  qed
  have r: "reaches_end ?N W Ov j \<longleftrightarrow> ?N \<le> int (Suc j) * (W - Ov)" if "Ov = 0" for j
    using that by (simp add: reaches_end_def algebra_simps)
  have g: "Ov = 0 \<longrightarrow> {j. j < ?K \<and> reaches_end ?N W Ov j} = {?K - 1}"
  proof
    assume z: "Ov = 0"
    have "j < ?K \<and> reaches_end ?N W Ov j \<longleftrightarrow> j = ?K - 1" for j
    proof
      assume "j < ?K \<and> reaches_end ?N W Ov j"
      then have "Suc j = ?K" using e r[OF z] by blast
      then show "j = ?K - 1" by simp
    next
      assume "j = ?K - 1"
      then have j: "j < ?K" and "Suc j = ?K" using l(1) by simp_all
      then have "?N \<le> int (Suc j) * (W - Ov)" using e by blast
      then show "j < ?K \<and> reaches_end ?N W Ov j" using j r[OF z] by blast
    qed
    then show "{j. j < ?K \<and> reaches_end ?N W Ov j} = {?K - 1}" by blast
  qed
  show ?thesis
  proof (intro exI conjI)
    show "chunk_text enc txt W Ov = Some ?cs" by (rule a)
    show "?cs \<noteq> []" by (rule b)
    show "reaches_end ?N W Ov (length ?cs - 1)" unfolding len by (rule c)
    show "\<forall>j < length ?cs. int j * (W - Ov) < ?N" unfolding len by (rule d)
    show "\<forall>j < length ?cs. Suc j = length ?cs \<longleftrightarrow> ?N \<le> int (Suc j) * (W - Ov)"
      unfolding len by (rule e)
    show "\<forall>j j'. reaches_end ?N W Ov j \<longrightarrow> j \<le> j' \<longrightarrow> reaches_end ?N W Ov j'" by (rule f)
    show "Ov = 0 \<longrightarrow> {j. j < length ?cs \<and> reaches_end ?N W Ov j} = {length ?cs - 1}"
      unfolding len by (rule g)
  qed
qed

theorem chunk_text_stops_witness:
  "encode char_enc ''abc'' \<noteq> [] \<and> (0::int) \<le> 1 \<and> (1::int) < 3 \<and>
   (\<exists>cs. chunk_text char_enc ''abc'' 3 1 = Some cs \<and> cs \<noteq> []
      \<and> reaches_end 3 3 1 (length cs - 1))"
proof -
  have h0: "encode char_enc ''abc'' \<noteq> []" by (simp add: char_enc_def)
  have h1: "(0::int) \<le> 1" and h2: "(1::int) < 3" by simp_all
  have len: "int (length (encode char_enc ''abc'')) = 3" by (simp add: char_enc_def)
  have "\<exists>cs. chunk_text char_enc ''abc'' 3 1 = Some cs \<and> cs \<noteq> []
          \<and> reaches_end 3 3 1 (length cs - 1)"
    using chunk_text_stops[OF h0 h1 h2, unfolded len]
    apply -
    apply (erule exE)
    apply (elim conjE)
    apply (intro exI conjI)
      apply assumption+
    done
  then show ?thesis using h0 h1 h2 by (intro conjI)
qed

subsection \<open>Loader: the loop as a filter\<close>

lemma load_step_spec:
  "load_step c docs fp =
     docs @ (case spec_doc (\<lambda>t. py_strip t \<noteq> []) c fp of None \<Rightarrow> [] | Some d \<Rightarrow> [d])"
  by (simp add: load_step_def spec_doc_def is_plain_text_def is_pdf_def spec_plain_doc_def
      spec_pdf_doc_def Let_def split: sum.splits)

lemma foldl_load_step:
  "foldl (load_step c) acc fps =
     acc @ List.map_filter (spec_doc (\<lambda>t. py_strip t \<noteq> []) c) fps"
proof (induction fps arbitrary: acc)
  case Nil
  show ?case by (simp add: List.map_filter_simps)
next
  case (Cons fp fps)
  have "foldl (load_step c) acc (fp # fps) = foldl (load_step c) (load_step c acc fp) fps"
    by simp
  also have "\<dots> = load_step c acc fp @ List.map_filter (spec_doc (\<lambda>t. py_strip t \<noteq> []) c) fps"
    by (rule Cons.IH)
  also have "\<dots> = acc @ List.map_filter (spec_doc (\<lambda>t. py_strip t \<noteq> []) c) (fp # fps)"
    by (simp add: load_step_spec List.map_filter_simps split: option.splits)
  finally show ?case .
qed

subsection \<open>Loader: the claim\<close>

text \<open>
  C9, as stated, fails: a text file that is read and decoded but holds nothing except
  white space gives no document, because \<^verbatim>\<open>load\<close> appends under \<^verbatim>\<open>if text.strip()\<close>
  only. A directory with one empty \<^verbatim>\<open>a.txt\<close> loads as no document at all, where one
  document per decoded text file would be one document.
\<close>

theorem load_skips_blank_file:
  "load empty_file_corpus = []
   \<and> is_plain_text ''./my-docs/a.txt''
   \<and> read_file empty_file_corpus ''./my-docs/a.txt'' = Inr []
   \<and> List.map_filter (spec_doc (\<lambda>t. True) empty_file_corpus) (glob_result empty_file_corpus) =
       [\<lparr>raw_content = [], url = ''a.txt''\<rparr>]"
proof -
  have a: "load empty_file_corpus = []" by code_simp
  have b: "is_plain_text ''./my-docs/a.txt''" by code_simp
  have c: "read_file empty_file_corpus ''./my-docs/a.txt'' = Inr []"
    by (simp add: empty_file_corpus_def)
  have d: "List.map_filter (spec_doc (\<lambda>t. True) empty_file_corpus) (glob_result empty_file_corpus) =
       [\<lparr>raw_content = [], url = ''a.txt''\<rparr>]" by code_simp
  show ?thesis by (intro conjI a b c d)
qed

text \<open>
  C9, amended. Over a directory, the loader returns, in the order of the listing, exactly
  one document per listed file with a plain-text extension (\<^verbatim>\<open>.txt\<close>, \<^verbatim>\<open>.md\<close>,
  \<^verbatim>\<open>.csv\<close>, in any letter case) that is read and decoded and whose text is not white space
  only, with the file's whole text and its base name; PDF files give documents by their
  own rule, every other file gives none, and a path that is no directory gives none.
\<close>

theorem load_documents:
  "load c =
     (if is_dir c
      then List.map_filter (spec_doc (\<lambda>t. py_strip t \<noteq> []) c) (glob_result c) else [])"
  by (simp add: load_def foldl_load_step)

theorem load_documents_witness:
  "is_dir small_corpus
   \<and> load small_corpus = [\<lparr>raw_content = ''hello'', url = ''A.TXT''\<rparr>]"
proof -
  have a: "is_dir small_corpus" by (simp add: small_corpus_def)
  have "List.map_filter (spec_doc (\<lambda>t. py_strip t \<noteq> []) small_corpus) (glob_result small_corpus) =
        [\<lparr>raw_content = ''hello'', url = ''A.TXT''\<rparr>]"
    by code_simp
  then have "load small_corpus = [\<lparr>raw_content = ''hello'', url = ''A.TXT''\<rparr>]"
    using load_documents[of small_corpus] a by simp
  then show ?thesis using a by simp
qed

subsection \<open>Index: ranking\<close>

lemma set_ranking: "set (ranking ix x) = {0..<ntotal ix}"
  by (simp add: ranking_def)

lemma distinct_ranking: "distinct (ranking ix x)"
  by (simp add: ranking_def)

lemma length_ranking: "length (ranking ix x) = ntotal ix"
  by (simp add: ranking_def)

lemma sorted_ranking:
  "sorted (map (\<lambda>i. - inner_product x (faiss_xb ix ! i)) (ranking ix x))"
  unfolding ranking_def by (rule sorted_sort_key)

lemma ranking_take_drop:
  assumes "i \<in> set (take n (ranking ix x))" "j \<in> set (drop n (ranking ix x))"
  shows "inner_product x (faiss_xb ix ! j) \<le> inner_product x (faiss_xb ix ! i)"
proof -
  let ?f = "\<lambda>i. - inner_product x (faiss_xb ix ! i)"
  have "sorted (map ?f (take n (ranking ix x)) @ map ?f (drop n (ranking ix x)))"
    using sorted_ranking[of x ix] by (simp flip: map_append)
  then have "\<forall>a \<in> set (map ?f (take n (ranking ix x))).
             \<forall>b \<in> set (map ?f (drop n (ranking ix x))). a \<le> b"
    by (simp only: sorted_append) blast
  then have "?f i \<le> ?f j" using assms by simp
  then show ?thesis by simp
qed

lemma ranking_take_sorted:
  "sorted_wrt (\<ge>) (map (\<lambda>i. inner_product x (faiss_xb ix ! i)) (take n (ranking ix x)))"
proof -
  let ?f = "\<lambda>i. - inner_product x (faiss_xb ix ! i)"
  have "sorted (take n (map ?f (ranking ix x)))"
    using sorted_ranking[of x ix] by (rule sorted_wrt_take)
  then have "sorted_wrt (\<lambda>a b. ?f a \<le> ?f b) (take n (ranking ix x))"
    by (simp add: take_map sorted_map)
  then have "sorted_wrt (\<lambda>a b. inner_product x (faiss_xb ix ! b) \<le> inner_product x (faiss_xb ix ! a))
               (take n (ranking ix x))"
    by simp
  then show ?thesis by (simp add: sorted_wrt_map)
qed

subsection \<open>Store: the search loop as a filter\<close>

lemma search_loop_filter:
  "search_loop metas cands acc =
     acc @ map (\<lambda>(dst, i). \<lparr>hit_score = dst, hit_text = text_chunk (metas ! nat i),
                               hit_source = source (metas ! nat i)\<rparr>)
             (filter (\<lambda>(dst, i). 0 \<le> i \<and> i < int (length metas)) cands)"
  by (induction metas cands acc rule: search_loop.induct) auto

lemma filter_padding:
  "filter (\<lambda>(dst, i). 0 \<le> i \<and> i < int m) (zip (replicate n a) (replicate n (- 1))) = []"
  by (induction n) simp_all

lemma search_closed:
  assumes "length q = faiss_d (index st)" "0 < k"
  shows "search st q k =
           Inr (map (hit_of st q)
                  (filter (\<lambda>i. i < length (doc_meta st)) (take (nat k) (ranking (index st) q))))"
proof -
  let ?best = "take (nat k) (ranking (index st) q)"
  let ?sc = "\<lambda>i. inner_product q (faiss_xb (index st) ! i)"
  let ?pad = "nat k - length ?best"
  let ?valid = "\<lambda>(dst, i). 0 \<le> i \<and> i < int (length (doc_meta st))"
  have isr: "index_search (index st) q k =
              Inr (map ?sc ?best @ replicate ?pad pad_distance,
                   map int ?best @ replicate ?pad (- 1))"
    using assms by (simp add: index_search_def Let_def)
  have z: "zip (map ?sc ?best @ replicate ?pad pad_distance)
               (map int ?best @ replicate ?pad (- 1)) =
           map (\<lambda>i. (?sc i, int i)) ?best @
           zip (replicate ?pad pad_distance) (replicate ?pad (- 1))"
    by (simp add: zip_map_map zip_same_conv_map)
  have f: "filter ?valid (map (\<lambda>i. (?sc i, int i)) ?best) =
           map (\<lambda>i. (?sc i, int i)) (filter (\<lambda>i. i < length (doc_meta st)) ?best)"
    by (simp add: filter_map o_def)
  show ?thesis
    unfolding search_def isr
    by (simp only: sum.case prod.case z search_loop_filter filter_append filter_padding f)
       (simp add: hit_of_def o_def)
qed

lemma length_filter_bound:
  assumes "distinct xs"
  shows "length (filter (\<lambda>i. i < m) xs) \<le> m"
proof -
  let ?F = "filter (\<lambda>i. i < m) xs"
  have d: "distinct ?F" using assms by simp
  have "card (set ?F) = length ?F" by (rule distinct_card[OF d])
  moreover have "card (set ?F) \<le> card {..<m}"
    by (intro card_mono) auto
  ultimately show ?thesis by simp
qed

subsection \<open>Store: search\<close>

text \<open>
  C4. On a store whose metadata list is as long as its index (its entry count), a query
  vector of the index's dimension and \<open>k \<ge> 1\<close>, \<open>search\<close> returns \<open>min k count\<close>
  results: those of distinct stored entries, each with its inner product with the query
  as score and the entry's chunk text and source, in descending order of score, and no
  entry left out scores higher than one returned. An empty store gives the empty list,
  and \<open>k\<close> at or above the count gives every entry.
\<close>

theorem search_top_k:
  assumes "ntotal (index st) = length (doc_meta st)"
    and "length q = faiss_d (index st)" and "1 \<le> k"
  shows "\<exists>ids. search st q k = Inr (map (hit_of st q) ids)
           \<and> length ids = min (nat k) (ntotal (index st))
           \<and> distinct ids \<and> set ids \<subseteq> {..<ntotal (index st)}
           \<and> sorted_wrt (\<ge>) (map hit_score (map (hit_of st q) ids))
           \<and> (\<forall>i \<in> set ids. \<forall>j < ntotal (index st). j \<notin> set ids \<longrightarrow>
                 hit_score (hit_of st q j) \<le> hit_score (hit_of st q i))
           \<and> (ntotal (index st) = 0 \<longrightarrow> ids = [])
           \<and> (int (ntotal (index st)) \<le> k \<longrightarrow> set ids = {..<ntotal (index st)})"
proof -
  let ?r = "ranking (index st) q"
  let ?ids = "take (nat k) ?r"
  have k: "0 < k" using assms(3) by simp
  have sub: "set ?ids \<subseteq> {..<ntotal (index st)}"
    using set_take_subset[of "nat k" ?r] set_ranking[of "index st" q] by auto
  then have "filter (\<lambda>i. i < length (doc_meta st)) ?ids = ?ids"
    using assms(1) by (intro filter_True) auto
  then have a: "search st q k = Inr (map (hit_of st q) ?ids)"
    using search_closed[OF assms(2) k] by simp
  have b: "length ?ids = min (nat k) (ntotal (index st))"
    by (simp add: length_ranking min.commute)
  have c: "distinct ?ids" using distinct_ranking by (rule distinct_take)
  have d: "sorted_wrt (\<ge>) (map hit_score (map (hit_of st q) ?ids))"
    using ranking_take_sorted[of q "index st" "nat k"] by (simp add: hit_of_def o_def)
  have e: "\<forall>i \<in> set ?ids. \<forall>j < ntotal (index st). j \<notin> set ?ids \<longrightarrow>
             hit_score (hit_of st q j) \<le> hit_score (hit_of st q i)"
  proof (intro ballI allI impI)
    fix i j assume i: "i \<in> set ?ids" and j: "j < ntotal (index st)" and n: "j \<notin> set ?ids"
    have "j \<in> set ?r" using j by (simp add: set_ranking)
    then have "j \<in> set (take (nat k) ?r) \<union> set (drop (nat k) ?r)"
      by (simp flip: set_append)
    then have "j \<in> set (drop (nat k) ?r)" using n by simp
    from ranking_take_drop[OF i this]
    show "hit_score (hit_of st q j) \<le> hit_score (hit_of st q i)"
      by (simp add: hit_of_def)
  qed
  have f: "ntotal (index st) = 0 \<longrightarrow> ?ids = []"
    by (simp add: ranking_def)
  have g: "int (ntotal (index st)) \<le> k \<longrightarrow> set ?ids = {..<ntotal (index st)}"
  proof
    assume "int (ntotal (index st)) \<le> k"
    then have "length ?r \<le> nat k" by (simp add: length_ranking)
    then have "?ids = ?r" by simp
    then show "set ?ids = {..<ntotal (index st)}"
      using set_ranking[of "index st" q] by auto
  qed
  show ?thesis
    by (intro exI[of _ ?ids] conjI a b c sub d e f g)
qed

theorem search_top_k_witness:
  "ntotal (index two_store) = length (doc_meta two_store)
   \<and> length [0, 1 :: real] = faiss_d (index two_store) \<and> (1::int) \<le> 1
   \<and> (\<exists>ids. search two_store [0, 1] 1 = Inr (map (hit_of two_store [0, 1]) ids)
         \<and> length ids = min (nat 1) (ntotal (index two_store)))"
proof -
  have h1: "ntotal (index two_store) = length (doc_meta two_store)"
    by (simp add: two_store_def ntotal_def)
  have h2: "length [0, 1 :: real] = faiss_d (index two_store)"
    by (simp add: two_store_def)
  have h3: "(1::int) \<le> 1" by simp
  have "\<exists>ids. search two_store [0, 1] 1 = Inr (map (hit_of two_store [0, 1]) ids)
         \<and> length ids = min (nat 1) (ntotal (index two_store))"
    using search_top_k[OF h1 h2 h3]
    apply -
    apply (erule exE)
    apply (elim conjE)
    apply (intro exI conjI)
     apply assumption+
    done
  then show ?thesis using h1 h2 h3 by (intro conjI)
qed

text \<open>
  C10, as stated, fails for a query vector whose length is not the index's dimension: the
  index rejects it with an assertion, which \<open>search\<close> does not catch.
\<close>

theorem search_wrong_dimension:
  "search two_store [1] 1 = Inl AssertionError \<and> faiss_d (index two_store) = 2"
  by (simp add: search_def index_search_def two_store_def)

text \<open>
  C10, amended. For every store state, also one whose index and metadata list differ in
  length, every query vector of the index's dimension and every \<open>k \<ge> 1\<close>, \<open>search\<close>
  returns: its results are those of the \<open>k\<close> best labels that are below the length of
  the metadata list, every other candidate being skipped, so each result reads an
  existing metadata entry, and there are at most \<open>min k (min count length)\<close> of them.
\<close>

theorem search_in_bounds:
  assumes "length q = faiss_d (index st)" and "1 \<le> k"
  shows "\<exists>rs. search st q k = Inr rs
           \<and> rs = map (hit_of st q)
                   (filter (\<lambda>i. i < length (doc_meta st)) (take (nat k) (ranking (index st) q)))
           \<and> (\<forall>r \<in> set rs. \<exists>i. i < length (doc_meta st) \<and> i < ntotal (index st)
                 \<and> r = hit_of st q i)
           \<and> length rs \<le> min (nat k) (min (ntotal (index st)) (length (doc_meta st)))"
proof -
  let ?r = "ranking (index st) q"
  let ?ids = "filter (\<lambda>i. i < length (doc_meta st)) (take (nat k) ?r)"
  have k: "0 < k" using assms(2) by simp
  have a: "search st q k = Inr (map (hit_of st q) ?ids)"
    using search_closed[OF assms(1) k] .
  have sub: "set ?ids \<subseteq> {i. i < length (doc_meta st) \<and> i < ntotal (index st)}"
    using set_take_subset[of "nat k" ?r] set_ranking[of "index st" q] by auto
  have b: "\<forall>r \<in> set (map (hit_of st q) ?ids).
             \<exists>i. i < length (doc_meta st) \<and> i < ntotal (index st) \<and> r = hit_of st q i"
    using sub by auto
  have l1: "length ?ids \<le> length (take (nat k) ?r)" by (rule length_filter_le)
  have "distinct (take (nat k) ?r)" using distinct_ranking by (rule distinct_take)
  then have l3: "length ?ids \<le> length (doc_meta st)" by (rule length_filter_bound)
  have c: "length (map (hit_of st q) ?ids) \<le>
           min (nat k) (min (ntotal (index st)) (length (doc_meta st)))"
    using l1 l3 by (simp add: length_ranking)
  show ?thesis
    by (intro exI[of _ "map (hit_of st q) ?ids"] conjI a refl b c)
qed

theorem search_in_bounds_witness:
  "length [0, 1 :: real] = faiss_d (index skewed_store) \<and> (1::int) \<le> 2
   \<and> ntotal (index skewed_store) = 2 \<and> length (doc_meta skewed_store) = 1
   \<and> (\<exists>rs. search skewed_store [0, 1] 2 = Inr rs \<and> length rs \<le> 1)"
proof -
  have h1: "length [0, 1 :: real] = faiss_d (index skewed_store)"
    by (simp add: skewed_store_def two_store_def)
  have h2: "(1::int) \<le> 2" by simp
  have n: "ntotal (index skewed_store) = 2" "length (doc_meta skewed_store) = 1"
    by (simp_all add: skewed_store_def two_store_def ntotal_def)
  have "\<exists>rs. search skewed_store [0, 1] 2 = Inr rs \<and> length rs \<le> 1"
    using search_in_bounds[OF h1 h2, unfolded n]
    apply -
    apply (erule exE)
    apply (elim conjE)
    apply (intro exI conjI)
     apply assumption
    apply simp
    done
  then show ?thesis using h1 h2 n by (intro conjI)
qed

subsection \<open>Store: persist and reload\<close>

lemma artifact_paths_differ: "p @ ''.faiss'' \<noteq> p @ ''.meta.json''"
  by simp

lemma read_index_save: "read_index (index_path st @ ''.faiss'') (save st fs) = Inr (index st)"
  by (simp add: read_index_def save_def json_dump_def write_index_def)

lemma json_load_save:
  "json_load (index_path st @ ''.meta.json'') (save st fs) = Inr (doc_meta st)"
  by (simp add: json_load_def save_def json_dump_def write_index_def)

lemma load_index_save:
  assumes "index_path st0 = index_path st"
  shows "load_index st0 (save st fs) = Inr (st0\<lparr>index := index st, doc_meta := doc_meta st\<rparr>)"
  unfolding load_index_def assms by (simp only: read_index_save json_load_save sum.case)

lemma dom_save:
  "dom (save st fs) = dom fs \<union> {index_path st @ ''.faiss'', index_path st @ ''.meta.json''}"
  by (auto simp: save_def json_dump_def write_index_def)

lemma search_cong:
  "index a = index b \<Longrightarrow> doc_meta a = doc_meta b \<Longrightarrow> search a q k = search b q k"
  by (simp add: search_def split: sum.splits)

text \<open>
  Called on a store object with the same path, \<open>load_index\<close> brings back the index and
  the metadata list that \<open>save\<close> wrote, and \<open>search\<close> then gives what it gave before.
\<close>

lemma load_index_restores:
  assumes "index_path st0 = index_path st"
  shows "\<exists>st'. load_index st0 (save st fs) = Inr st'
           \<and> index st' = index st \<and> doc_meta st' = doc_meta st
           \<and> search st' q k = search st q k"
proof -
  let ?st' = "st0\<lparr>index := index st, doc_meta := doc_meta st\<rparr>"
  have a: "load_index st0 (save st fs) = Inr ?st'" using load_index_save[OF assms] .
  have b: "index ?st' = index st" and c: "doc_meta ?st' = doc_meta st" by simp_all
  have d: "search ?st' q k = search st q k" by (rule search_cong) simp_all
  show ?thesis by (intro exI[of _ ?st'] conjI a b c d)
qed

lemma new_store_empty:
  "path \<notin> dom fs0 \<Longrightarrow>
   new_LocalVectorStore dm path fs0 =
     Inr \<lparr>dimension = dm, index_path = path, index = IndexFlatIP dm, doc_meta = []\<rparr>"
  by (simp add: new_LocalVectorStore_def)

lemma index_path_not_saved:
  assumes "index_path st \<notin> dom fs"
  shows "index_path st \<notin> dom (save st fs)"
  using assms by (simp add: dom_save)

lemma search_empty_store:
  assumes "length q = dm" and "1 \<le> k"
  shows "search \<lparr>dimension = dm, index_path = path, index = IndexFlatIP dm, doc_meta = []\<rparr> q k
         = Inr []"
proof -
  have "0 < k" using assms(2) by simp
  then show ?thesis
    using assms(1) by (simp add: search_closed IndexFlatIP_def)
qed

text \<open>
  C5 is what persisting is for, and the script's header says that later runs load the
  saved index; the code does not do it. The only caller of \<^verbatim>\<open>_load_index\<close> is the
  constructor, under \<^verbatim>\<open>os.path.exists(self.index_path)\<close>, and \<^verbatim>\<open>save\<close> writes
  \<^verbatim>\<open>index_path + ".faiss"\<close> and \<^verbatim>\<open>index_path + ".meta.json"\<close> only. So when no file is named
  by the bare path, constructing the store after a save gives a new empty store, and a
  search on it returns the empty list whatever was saved.
\<close>

theorem constructor_after_save:
  assumes "index_path st \<notin> dom fs"
  shows "new_LocalVectorStore dm (index_path st) (save st fs) =
           Inr \<lparr>dimension = dm, index_path = index_path st,
                index = IndexFlatIP dm, doc_meta = []\<rparr>
         \<and> (\<forall>q k. length q = dm \<and> 1 \<le> k \<longrightarrow>
               (\<exists>st'. new_LocalVectorStore dm (index_path st) (save st fs) = Inr st'
                  \<and> search st' q k = Inr []))"
proof -
  have a: "new_LocalVectorStore dm (index_path st) (save st fs) =
           Inr \<lparr>dimension = dm, index_path = index_path st,
                index = IndexFlatIP dm, doc_meta = []\<rparr>"
    using index_path_not_saved[OF assms] by (rule new_store_empty)
  have b: "\<forall>q k. length q = dm \<and> 1 \<le> k \<longrightarrow>
               (\<exists>st'. new_LocalVectorStore dm (index_path st) (save st fs) = Inr st'
                  \<and> search st' q k = Inr [])"
  proof (intro allI impI)
    fix q :: "real list" and k :: int
    assume h: "length q = dm \<and> 1 \<le> k"
    have "search \<lparr>dimension = dm, index_path = index_path st,
                index = IndexFlatIP dm, doc_meta = []\<rparr> q k = Inr []"
      using h by (intro search_empty_store) simp_all
    then show "\<exists>st'. new_LocalVectorStore dm (index_path st) (save st fs) = Inr st'
                  \<and> search st' q k = Inr []"
      using a by simp
  qed
  show ?thesis by (intro conjI a b)
qed

lemma search_two_store:
  "search two_store [0, 1] 1 =
     Inr [\<lparr>hit_score = 1, hit_text = ''beta'', hit_source = ''b.txt''\<rparr>]"
proof -
  have r: "ranking (index two_store) [0, 1] = [1, 0]"
    by (simp add: ranking_def ntotal_def two_store_def inner_product_def upt_rec)
  have "search two_store [0, 1] 1 =
          Inr (map (hit_of two_store [0, 1])
                 (filter (\<lambda>i. i < length (doc_meta two_store))
                    (take (nat 1) (ranking (index two_store) [0, 1]))))"
    by (rule search_closed) (simp_all add: two_store_def)
  then show ?thesis
    unfolding r by (simp add: two_store_def hit_of_def inner_product_def)
qed

theorem constructor_after_save_witness:
  "index_path two_store \<notin> dom (Map.empty :: files)
   \<and> search two_store [0, 1] 1 =
       Inr [\<lparr>hit_score = 1, hit_text = ''beta'', hit_source = ''b.txt''\<rparr>]
   \<and> (\<exists>st'. new_LocalVectorStore 2 (index_path two_store) (save two_store Map.empty) = Inr st'
         \<and> search st' [0, 1] 1 = Inr [])"
proof -
  have h: "index_path two_store \<notin> dom (Map.empty :: files)" by simp
  have q: "length [0, 1 :: real] = 2 \<and> (1::int) \<le> 1" by simp
  from constructor_after_save[OF h, of 2]
  have "\<forall>q k. length q = 2 \<and> 1 \<le> k \<longrightarrow>
          (\<exists>st'. new_LocalVectorStore 2 (index_path two_store) (save two_store Map.empty) = Inr st'
             \<and> search st' q k = Inr [])"
    by (rule conjunct2)
  then have "\<exists>st'. new_LocalVectorStore 2 (index_path two_store) (save two_store Map.empty) = Inr st'
         \<and> search st' [0, 1] 1 = Inr []"
    using q by blast
  then show ?thesis using h search_two_store by (intro conjI)
qed

subsection \<open>Store: the entries stay in lock-step\<close>

lemma np_array_cases: "np_array rows = Inl ValueError \<or> np_array rows = Inr rows"
  by (simp add: np_array_def)

lemma index_add_cases:
  "index_add ix arr = Inl AssertionError \<or>
   index_add ix arr = Inr (ix\<lparr>faiss_xb := faiss_xb ix @ arr\<rparr>)"
  by (simp add: index_add_def)

lemma add_embeddings_lockstep:
  assumes "add_embeddings st embeddings metas = Inr st'"
    and "length embeddings = length metas"
  shows "faiss_xb (index st') = faiss_xb (index st) @ embeddings
         \<and> doc_meta st' = doc_meta st @ metas"
proof (cases "embeddings = []")
  case True
  have "st' = st" using assms(1) True by (simp add: add_embeddings_def)
  moreover have "metas = []" using assms(2) True by simp
  ultimately show ?thesis using True by simp
next
  case False
  have np: "np_array embeddings = Inr embeddings"
  proof (rule disjE[OF np_array_cases[of embeddings]])
    assume "np_array embeddings = Inl ValueError"
    then have "add_embeddings st embeddings metas = Inl ValueError"
      using False by (simp add: add_embeddings_def)
    then show ?thesis using assms(1) by simp
  qed
  have ia: "index_add (index st) embeddings =
            Inr ((index st)\<lparr>faiss_xb := faiss_xb (index st) @ embeddings\<rparr>)"
  proof (rule disjE[OF index_add_cases[of "index st" embeddings]])
    assume "index_add (index st) embeddings = Inl AssertionError"
    then have "add_embeddings st embeddings metas = Inl AssertionError"
      using False np by (simp add: add_embeddings_def)
    then show ?thesis using assms(1) by simp
  qed
  have "add_embeddings st embeddings metas =
        Inr (st\<lparr>index := (index st)\<lparr>faiss_xb := faiss_xb (index st) @ embeddings\<rparr>,
                doc_meta := doc_meta st @ metas\<rparr>)"
    using False np ia by (simp add: add_embeddings_def)
  then have "st' = st\<lparr>index := (index st)\<lparr>faiss_xb := faiss_xb (index st) @ embeddings\<rparr>,
                doc_meta := doc_meta st @ metas\<rparr>"
    using assms(1) by simp
  then show ?thesis by simp
qed

lemma run_op_lockstep:
  assumes "batch_ok op" and "run_op (st, fs) op = (st', fs')"
  shows "\<exists>vs ms. faiss_xb (index st') = faiss_xb (index st) @ vs
           \<and> doc_meta st' = doc_meta st @ ms \<and> length vs = length ms"
proof (cases op)
  case (AppendBatch embeddings metas)
  show ?thesis
  proof (cases "add_embeddings st embeddings metas")
    case (Inl e)
    then have "st' = st" using assms(2) AppendBatch by simp
    then show ?thesis by simp
  next
    case (Inr st2)
    then have s: "st' = st2" using assms(2) AppendBatch by simp
    have len: "length embeddings = length metas"
      using assms(1) AppendBatch by (simp add: batch_ok_def)
    from add_embeddings_lockstep[OF Inr len] len show ?thesis
      unfolding s by blast
  qed
next
  case Persist
  then have "st' = st" using assms(2) by simp
  then show ?thesis by simp
next
  case (Search q k)
  then have "st' = st" using assms(2) by simp
  then show ?thesis by simp
qed

lemma run_ops_lockstep:
  assumes "list_all batch_ok ops" and "foldl run_op (st, fs) ops = (st', fs')"
  shows "\<exists>vs ms. faiss_xb (index st') = faiss_xb (index st) @ vs
           \<and> doc_meta st' = doc_meta st @ ms \<and> length vs = length ms"
  using assms
proof (induction ops arbitrary: st fs)
  case Nil
  then show ?case by simp
next
  case (Cons op ops)
  obtain st1 fs1 where step: "run_op (st, fs) op = (st1, fs1)"
    by (cases "run_op (st, fs) op")
  have ok: "batch_ok op" and oks: "list_all batch_ok ops" using Cons.prems(1) by simp_all
  have rest: "foldl run_op (st1, fs1) ops = (st', fs')"
    using Cons.prems(2) step by simp
  from run_op_lockstep[OF ok step] obtain vs ms where
    a: "faiss_xb (index st1) = faiss_xb (index st) @ vs"
       "doc_meta st1 = doc_meta st @ ms" "length vs = length ms"
    by blast
  from Cons.IH[OF oks rest] obtain vs' ms' where
    b: "faiss_xb (index st') = faiss_xb (index st1) @ vs'"
       "doc_meta st' = doc_meta st1 @ ms'" "length vs' = length ms'"
    by blast
  have "faiss_xb (index st') = faiss_xb (index st) @ (vs @ vs')
        \<and> doc_meta st' = doc_meta st @ (ms @ ms') \<and> length (vs @ vs') = length (ms @ ms')"
    using a b by simp
  then show ?case by blast
qed

text \<open>
  C6. Start from a constructed store: an empty one, or one loaded from backing files
  whose index and metadata list have the same length. After any run of appends of two
  lists of equal length, saves and searches, the metadata list is as long as the index
  holds vectors, and the vectors and the metadata are those of the start followed by the
  same number of new ones: nothing was reordered or removed. The run is arbitrary, so
  this holds after each of its steps.
\<close>

theorem store_lockstep:
  assumes "new_LocalVectorStore dm path fs0 = Inr st0"
    and "ntotal (index st0) = length (doc_meta st0)"
    and "list_all batch_ok ops"
    and "foldl run_op (st0, fs0) ops = (st, fs)"
  shows "ntotal (index st) = length (doc_meta st)
         \<and> (\<exists>vs ms. faiss_xb (index st) = faiss_xb (index st0) @ vs
               \<and> doc_meta st = doc_meta st0 @ ms \<and> length vs = length ms)"
proof -
  from run_ops_lockstep[OF assms(3,4)] obtain vs ms where
    a: "faiss_xb (index st) = faiss_xb (index st0) @ vs"
       "doc_meta st = doc_meta st0 @ ms" "length vs = length ms"
    by blast
  have "ntotal (index st) = length (doc_meta st)"
    using a assms(2) by (simp add: ntotal_def)
  then show ?thesis using a by blast
qed

theorem store_lockstep_witness:
  "new_LocalVectorStore 2 ''local_docs.index'' Map.empty = Inr empty_store2
   \<and> ntotal (index empty_store2) = length (doc_meta empty_store2)
   \<and> list_all batch_ok demo_ops
   \<and> ntotal (index (fst (foldl run_op (empty_store2, Map.empty) demo_ops))) =
       length (doc_meta (fst (foldl run_op (empty_store2, Map.empty) demo_ops)))"
proof -
  have h1: "new_LocalVectorStore 2 ''local_docs.index'' Map.empty = Inr empty_store2"
    by (simp add: new_LocalVectorStore_def empty_store2_def)
  have h2: "ntotal (index empty_store2) = length (doc_meta empty_store2)"
    by (simp add: empty_store2_def IndexFlatIP_def ntotal_def)
  have h3: "list_all batch_ok demo_ops"
    by (simp add: demo_ops_def batch_ok_def)
  have h4: "foldl run_op (empty_store2, Map.empty) demo_ops =
            (fst (foldl run_op (empty_store2, Map.empty) demo_ops),
             snd (foldl run_op (empty_store2, Map.empty) demo_ops))"
    by simp
  from store_lockstep[OF h1 h2 h3 h4]
  have "ntotal (index (fst (foldl run_op (empty_store2, Map.empty) demo_ops))) =
        length (doc_meta (fst (foldl run_op (empty_store2, Map.empty) demo_ops)))"
    by (rule conjunct1)
  then show ?thesis using h1 h2 h3 by (intro conjI)
qed

subsection \<open>Build: the two loops in closed form\<close>

lemma embedded_append:
  "embedded prov n (xs @ ys) = embedded prov n xs @ embedded prov (n + length xs) ys"
  by (induction prov n xs rule: embedded.induct) (simp_all split: sum.splits)

lemma failures_append:
  "failures prov n (xs @ ys) = failures prov n xs @ failures prov (n + length xs) ys"
  by (induction prov n xs rule: failures.induct) (simp_all split: sum.splits)

lemma length_embedded_failures:
  "length (embedded prov n jobs) + length (failures prov n jobs) = length jobs"
  by (induction prov n jobs rule: embedded.induct) (simp_all split: sum.splits)

lemma embedded_from_provider:
  "e \<in> set (embedded prov n jobs) \<Longrightarrow> \<exists>k ch. prov k ch = Inr (fst e)"
proof (induction prov n jobs rule: embedded.induct)
  case (1 prov n)
  then show ?case by simp
next
  case (2 prov n ch src jobs)
  show ?case
  proof (cases "prov n ch")
    case (Inl err)
    then have "e \<in> set (embedded prov (Suc n) jobs)" using "2.prems" by simp
    then show ?thesis using "2.IH"(1)[OF Inl] by blast
  next
    case (Inr v)
    then have "fst e = v \<or> e \<in> set (embedded prov (Suc n) jobs)"
      using "2.prems" by auto
    then show ?thesis
    proof
      assume "fst e = v"
      then have "prov n ch = Inr (fst e)" using Inr by simp
      then show ?thesis by blast
    next
      assume "e \<in> set (embedded prov (Suc n) jobs)"
      then show ?thesis using "2.IH"(2)[OF Inr] by blast
    qed
  qed
qed

lemma embed_chunks_closed:
  "embed_chunks src chs (w, es, ms) =
     (w\<lparr>embed_calls := embed_calls w + length chs,
        error_log := error_log w @
           failures (provider w) (embed_calls w) (map (\<lambda>ch. (ch, src)) chs)\<rparr>,
      es @ map fst (embedded (provider w) (embed_calls w) (map (\<lambda>ch. (ch, src)) chs)),
      ms @ map snd (embedded (provider w) (embed_calls w) (map (\<lambda>ch. (ch, src)) chs)))"
proof (induction chs arbitrary: w es ms)
  case Nil
  show ?case by simp
next
  case (Cons ch chs)
  show ?case
  proof (cases "provider w (embed_calls w) ch")
    case (Inl e)
    then show ?thesis by (simp add: embed_call_def Cons.IH)
  next
    case (Inr v)
    then show ?thesis by (simp add: embed_call_def Cons.IH)
  qed
qed

lemma chunk_text_default: "chunk_text ec txt 600 100 = Some (default_chunks ec txt)"
  using chunk_text_closed[of 100 600 ec "txt"] by (simp add: default_chunks_def)

lemma jobs_of_Cons:
  "jobs_of ec (dc # ds) =
     map (\<lambda>ch. (ch, url dc)) (default_chunks ec (raw_content dc)) @ jobs_of ec ds"
  by (simp add: jobs_of_def)

lemma embed_docs_closed:
  "embed_docs docs (w, es, ms) =
     Some (w\<lparr>embed_calls := embed_calls w + length (jobs_of (tokenizer w) docs),
             chunker_runs := chunker_runs w + length docs,
             error_log := error_log w @
                failures (provider w) (embed_calls w) (jobs_of (tokenizer w) docs)\<rparr>,
           es @ map fst (embedded (provider w) (embed_calls w) (jobs_of (tokenizer w) docs)),
           ms @ map snd (embedded (provider w) (embed_calls w) (jobs_of (tokenizer w) docs)))"
proof (induction docs arbitrary: w es ms)
  case Nil
  show ?case by (simp add: jobs_of_def)
next
  case (Cons dc ds)
  show ?case
    by (simp add: chunk_text_default embed_chunks_closed Cons.IH jobs_of_Cons
        embedded_append failures_append add.assoc)
qed

lemma add_embeddings_fresh:
  assumes "\<forall>e \<in> set emb. length (fst e) = dm"
  shows "add_embeddings
           \<lparr>dimension = dm, index_path = path, index = IndexFlatIP dm, doc_meta = []\<rparr>
           (map fst emb) (map snd emb) =
         Inr \<lparr>dimension = dm, index_path = path,
              index = \<lparr>faiss_d = dm, faiss_xb = map fst emb\<rparr>, doc_meta = map snd emb\<rparr>"
proof (cases emb)
  case Nil
  then show ?thesis by (simp add: add_embeddings_def IndexFlatIP_def)
next
  case (Cons e es)
  have "\<forall>row \<in> set (map fst emb). length row = dm" using assms by simp
  moreover have "hd (map fst emb) \<in> set (map fst emb)" using Cons by simp
  ultimately have "\<forall>row \<in> set (map fst emb). length row = length (hd (map fst emb))"
    by metis
  then have np: "np_array (map fst emb) = Inr (map fst emb)" by (simp add: np_array_def)
  have ia: "index_add (IndexFlatIP dm) (map fst emb) =
            Inr \<lparr>faiss_d = dm, faiss_xb = map fst emb\<rparr>"
    using assms by (simp add: index_add_def IndexFlatIP_def)
  have ne: "map fst emb \<noteq> []" using Cons by simp
  show ?thesis
    unfolding add_embeddings_def using ne by (simp add: np ia)
qed

lemma build_fresh:
  assumes "''local_docs.index'' \<notin> dom (disk w)"
    and "load (my_docs w) \<noteq> []" and "api_key w \<noteq> []"
    and "\<forall>n ch v. provider w n ch = Inr v \<longrightarrow> length v = 1536"
  shows "ensure_vectorstore_build w = Some (Inr (built_store w), built_world w)"
proof -
  let ?jobs = "jobs_of (tokenizer w) (load (my_docs w))"
  let ?emb = "embedded (provider w) (embed_calls w) ?jobs"
  have dims: "\<forall>e \<in> set ?emb. length (fst e) = 1536"
    using embedded_from_provider assms(4) by blast
  note add = add_embeddings_fresh[OF dims, of "''local_docs.index''"]
  have new: "new_LocalVectorStore 1536 ''local_docs.index'' (disk w) =
             Inr \<lparr>dimension = 1536, index_path = ''local_docs.index'',
                  index = IndexFlatIP 1536, doc_meta = []\<rparr>"
    using assms(1) by (rule new_store_empty)
  show ?thesis
    unfolding ensure_vectorstore_build_def new
    using assms(2,3)
    by (simp add: Let_def embed_docs_closed add built_store_def built_world_def)
qed

lemma build_returns: "\<exists>r w'. ensure_vectorstore_build w = Some (r, w')"
  unfolding ensure_vectorstore_build_def Let_def
  by (simp add: embed_docs_closed split: sum.splits)

lemma built_store_entries:
  "zip (faiss_xb (index (built_store w))) (doc_meta (built_store w)) =
     embedded (provider w) (embed_calls w) (jobs_of (tokenizer w) (load (my_docs w)))"
  "ntotal (index (built_store w)) =
     length (embedded (provider w) (embed_calls w) (jobs_of (tokenizer w) (load (my_docs w))))"
  "length (doc_meta (built_store w)) =
     length (embedded (provider w) (embed_calls w) (jobs_of (tokenizer w) (load (my_docs w))))"
  by (simp_all add: built_store_def Let_def ntotal_def zip_map_fst_snd)

lemma built_world_fields:
  "embed_calls (built_world w) =
     embed_calls w + length (jobs_of (tokenizer w) (load (my_docs w)))"
  "loader_runs (built_world w) = Suc (loader_runs w)"
  "chunker_runs (built_world w) = chunker_runs w + length (load (my_docs w))"
  "error_log (built_world w) = error_log w @
     failures (provider w) (embed_calls w) (jobs_of (tokenizer w) (load (my_docs w)))"
  "disk (built_world w) = save (built_store w) (disk w)"
  "my_docs (built_world w) = my_docs w" "api_key (built_world w) = api_key w"
  "provider (built_world w) = provider w" "tokenizer (built_world w) = tokenizer w"
  by (simp_all add: built_world_def)

lemma built_world_no_index_file:
  assumes "''local_docs.index'' \<notin> dom (disk w)"
  shows "''local_docs.index'' \<notin> dom (disk (built_world w))"
  using assms by (simp add: built_world_fields dom_save built_store_def Let_def)

subsection \<open>Build: the claims\<close>

text \<open>
  C7. A build that starts from no store, over a non-empty corpus, with the key set and a
  client whose vectors have the store's dimension, returns a store and does not abort:
  every chunk of every document is sent to the client, each call that raises is logged
  with its source and leaves no entry, each call that returns leaves exactly one, and the
  store is saved. With one failure among three chunks the store ends with two entries.
\<close>

theorem build_drops_failed_chunks:
  assumes "''local_docs.index'' \<notin> dom (disk w)"
    and "load (my_docs w) \<noteq> []" and "api_key w \<noteq> []"
    and "\<forall>n ch v. provider w n ch = Inr v \<longrightarrow> length v = 1536"
  shows "\<exists>st w'. ensure_vectorstore_build w = Some (Inr st, w')
           \<and> embed_calls w' = embed_calls w + length (jobs_of (tokenizer w) (load (my_docs w)))
           \<and> zip (faiss_xb (index st)) (doc_meta st) =
               embedded (provider w) (embed_calls w) (jobs_of (tokenizer w) (load (my_docs w)))
           \<and> ntotal (index st) =
               length (embedded (provider w) (embed_calls w)
                         (jobs_of (tokenizer w) (load (my_docs w))))
           \<and> length (doc_meta st) = ntotal (index st)
           \<and> error_log w' = error_log w @
               failures (provider w) (embed_calls w) (jobs_of (tokenizer w) (load (my_docs w)))
           \<and> ntotal (index st) + length (failures (provider w) (embed_calls w)
                                           (jobs_of (tokenizer w) (load (my_docs w)))) =
               length (jobs_of (tokenizer w) (load (my_docs w)))
           \<and> disk w' = save st (disk w)"
proof -
  have a: "ensure_vectorstore_build w = Some (Inr (built_store w), built_world w)"
    using build_fresh[OF assms] .
  have e: "length (doc_meta (built_store w)) = ntotal (index (built_store w))"
    by (simp add: built_store_entries)
  have g: "ntotal (index (built_store w)) +
           length (failures (provider w) (embed_calls w)
                     (jobs_of (tokenizer w) (load (my_docs w)))) =
           length (jobs_of (tokenizer w) (load (my_docs w)))"
    by (simp add: built_store_entries(2) length_embedded_failures)
  show ?thesis
    by (intro exI[of _ "built_store w"] exI[of _ "built_world w"] conjI a
        built_world_fields(1) built_store_entries(1) built_store_entries(2) e
        built_world_fields(4) g built_world_fields(5))
qed

lemma demo_docs:
  "load three_corpus =
     [\<lparr>raw_content = ''alpha'', url = ''a.txt''\<rparr>, \<lparr>raw_content = ''beta'', url = ''b.txt''\<rparr>,
      \<lparr>raw_content = ''gamma'', url = ''c.txt''\<rparr>]"
  by code_simp

lemma demo_jobs:
  "jobs_of char_enc (load three_corpus) =
     [(''alpha'', ''a.txt''), (''beta'', ''b.txt''), (''gamma'', ''c.txt'')]"
  by code_simp

lemma demo_hyps:
  "''local_docs.index'' \<notin> dom (disk demo_world)"
  "load (my_docs demo_world) \<noteq> []"
  "api_key demo_world \<noteq> []"
  "\<forall>n ch v. provider demo_world n ch = Inr v \<longrightarrow> length v = 1536"
  by (auto simp: demo_world_def demo_docs flaky_provider_def split: if_splits)

lemma demo_fields:
  "tokenizer demo_world = char_enc" "my_docs demo_world = three_corpus"
  "provider demo_world = flaky_provider" "embed_calls demo_world = 0"
  "loader_runs demo_world = 0"
  by (simp_all add: demo_world_def)

lemma demo_embedded:
  "length (embedded flaky_provider 0
             [(''alpha'', ''a.txt''), (''beta'', ''b.txt''), (''gamma'', ''c.txt'')]) = 2"
  by (simp add: flaky_provider_def)

theorem build_drops_failed_chunks_witness:
  "''local_docs.index'' \<notin> dom (disk demo_world)
   \<and> load (my_docs demo_world) \<noteq> [] \<and> api_key demo_world \<noteq> []
   \<and> length (jobs_of (tokenizer demo_world) (load (my_docs demo_world))) = 3
   \<and> (\<exists>st w'. ensure_vectorstore_build demo_world = Some (Inr st, w')
         \<and> embed_calls w' = 3 \<and> ntotal (index st) = 2 \<and> length (doc_meta st) = 2)"
proof -
  have j: "length (jobs_of (tokenizer demo_world) (load (my_docs demo_world))) = 3"
    by (simp add: demo_fields demo_jobs)
  have "\<exists>st w'. ensure_vectorstore_build demo_world = Some (Inr st, w')
         \<and> embed_calls w' = 3 \<and> ntotal (index st) = 2 \<and> length (doc_meta st) = 2"
    using build_drops_failed_chunks[OF demo_hyps]
    apply -
    apply (elim exE conjE)
    apply (intro exI conjI)
       apply assumption
      apply (simp add: demo_fields demo_jobs)
     apply (simp add: demo_fields demo_jobs flaky_provider_def)
    apply (simp add: demo_fields demo_jobs flaky_provider_def)
    done
  then show ?thesis using demo_hyps(1,2,3) j by (intro conjI)
qed

text \<open>
  C1 is what the header of the script promises (the first run saves the index, later runs
  load it) and what the test on a non-empty store in \<^verbatim>\<open>ensure_vectorstore_build\<close> is
  there for, but the code does not do it: \<^verbatim>\<open>save\<close> writes \<^verbatim>\<open>local_docs.index.faiss\<close> and
  \<^verbatim>\<open>local_docs.index.meta.json\<close>, while the constructor loads only when a file named
  \<^verbatim>\<open>local_docs.index\<close> exists, and no part of the script writes one. So after a build
  that saved its entries, the next call builds again: it runs the loader and the chunker
  and sends every chunk to the client once more.
\<close>

theorem second_build_embeds_again:
  assumes "''local_docs.index'' \<notin> dom (disk w)"
    and "load (my_docs w) \<noteq> []" and "api_key w \<noteq> []"
    and "\<forall>n ch v. provider w n ch = Inr v \<longrightarrow> length v = 1536"
  shows "\<exists>st1 w1 st2 w2.
           ensure_vectorstore_build w = Some (Inr st1, w1)
           \<and> disk w1 ''local_docs.index.faiss'' = Some (IndexFile (index st1))
           \<and> disk w1 ''local_docs.index.meta.json'' = Some (MetaFile (doc_meta st1))
           \<and> ensure_vectorstore_build w1 = Some (Inr st2, w2)
           \<and> loader_runs w2 = Suc (loader_runs w1)
           \<and> chunker_runs w2 = chunker_runs w1 + length (load (my_docs w))
           \<and> embed_calls w2 =
               embed_calls w1 + length (jobs_of (tokenizer w) (load (my_docs w)))"
proof -
  let ?w1 = "built_world w"
  have a: "ensure_vectorstore_build w = Some (Inr (built_store w), ?w1)"
    using build_fresh[OF assms] .
  have h1: "''local_docs.index'' \<notin> dom (disk ?w1)"
    using assms(1) by (rule built_world_no_index_file)
  have h2: "load (my_docs ?w1) \<noteq> []" using assms(2) by (simp add: built_world_fields)
  have h3: "api_key ?w1 \<noteq> []" using assms(3) by (simp add: built_world_fields)
  have h4: "\<forall>n ch v. provider ?w1 n ch = Inr v \<longrightarrow> length v = 1536"
    using assms(4) by (simp add: built_world_fields)
  have b: "ensure_vectorstore_build ?w1 = Some (Inr (built_store ?w1), built_world ?w1)"
    using build_fresh[OF h1 h2 h3 h4] .
  have f1: "disk ?w1 ''local_docs.index.faiss'' = Some (IndexFile (index (built_store w)))"
    by (simp add: built_world_fields save_def json_dump_def write_index_def
        built_store_def Let_def)
  have f2: "disk ?w1 ''local_docs.index.meta.json'' = Some (MetaFile (doc_meta (built_store w)))"
    by (simp add: built_world_fields save_def json_dump_def write_index_def
        built_store_def Let_def)
  have c: "loader_runs (built_world ?w1) = Suc (loader_runs ?w1)"
    by (simp add: built_world_fields)
  have d: "chunker_runs (built_world ?w1) = chunker_runs ?w1 + length (load (my_docs w))"
    by (simp add: built_world_fields)
  have e: "embed_calls (built_world ?w1) =
           embed_calls ?w1 + length (jobs_of (tokenizer w) (load (my_docs w)))"
    by (simp add: built_world_fields)
  show ?thesis
    by (intro exI[of _ "built_store w"] exI[of _ ?w1] exI[of _ "built_store ?w1"]
        exI[of _ "built_world ?w1"] conjI a f1 f2 b c d e)
qed

theorem second_build_embeds_again_witness:
  "''local_docs.index'' \<notin> dom (disk demo_world)
   \<and> load (my_docs demo_world) \<noteq> [] \<and> api_key demo_world \<noteq> []
   \<and> (\<exists>st1 w1 st2 w2.
         ensure_vectorstore_build demo_world = Some (Inr st1, w1)
         \<and> ensure_vectorstore_build w1 = Some (Inr st2, w2)
         \<and> embed_calls w2 = embed_calls w1 + 3)"
proof -
  have "\<exists>st1 w1 st2 w2.
         ensure_vectorstore_build demo_world = Some (Inr st1, w1)
         \<and> ensure_vectorstore_build w1 = Some (Inr st2, w2)
         \<and> embed_calls w2 = embed_calls w1 + 3"
    using second_build_embeds_again[OF demo_hyps]
    apply -
    apply (elim exE conjE)
    apply (intro exI conjI)
      apply assumption
     apply assumption
    apply (simp add: demo_fields demo_jobs)
    done
  then show ?thesis using demo_hyps(1,2,3) by (intro conjI)
qed

subsection \<open>Retrieval: a failing query embedding\<close>

lemma loaded_build:
  "ensure_vectorstore_build loaded_world =
     Some (Inr \<lparr>dimension = 1536, index_path = ''local_docs.index'',
                index = index two_store, doc_meta = doc_meta two_store\<rparr>, loaded_world)"
  by (simp add: ensure_vectorstore_build_def new_LocalVectorStore_def load_index_def
      read_index_def json_load_def loaded_world_def demo_world_def two_store_def ntotal_def)

lemma nokey_build:
  "ensure_vectorstore_build nokey_world =
     Some (Inr \<lparr>dimension = 1536, index_path = ''local_docs.index'',
                index = index two_store, doc_meta = doc_meta two_store\<rparr>, nokey_world)"
  by (simp add: ensure_vectorstore_build_def new_LocalVectorStore_def load_index_def
      read_index_def json_load_def nokey_world_def loaded_world_def demo_world_def
      two_store_def ntotal_def)

text \<open>
  C8, as stated, fails when the key is set and the embedding call itself raises: the
  exception is caught by the outer handler, and the result is \<^verbatim>\<open>Error in RAG search:\<close>
  followed by the text of the exception, not a fixed message about embedding.
\<close>

theorem search_local_docs_provider_error:
  "map_option fst (search_local_docs loaded_world ''q'' 3) = Some ''Error in RAG search: timeout''
   \<and> api_key loaded_world = ''sk-test''
   \<and> provider loaded_world (embed_calls loaded_world) ''q'' = Inl (ProviderError ''timeout'')"
proof -
  have a: "api_key loaded_world = ''sk-test''"
    and b: "provider loaded_world (embed_calls loaded_world) ''q'' = Inl (ProviderError ''timeout'')"
    and c: "exc_text loaded_world (ProviderError ''timeout'') = ''timeout''"
    by (simp_all add: loaded_world_def demo_world_def)
  have n: "ntotal (index two_store) = 2" by (simp add: two_store_def ntotal_def)
  have "search_local_docs loaded_world ''q'' 3 =
          Some (''Error in RAG search: timeout'',
                loaded_world\<lparr>embed_calls := Suc (embed_calls loaded_world)\<rparr>)"
    unfolding search_local_docs_def loaded_build
    by (simp add: embed_call_def a b c n)
  then show ?thesis using a b by simp
qed

text \<open>
  C8, amended. \<^verbatim>\<open>search_local_docs\<close> always returns a string and never passes an
  exception on. When the store it obtains is not empty: with the key missing the result
  is the fixed message \<^verbatim>\<open>No OPENAI_API_KEY. Cannot embed queries.\<close>; with the key set and the
  embedding call raising, it is \<^verbatim>\<open>Error in RAG search:\<close> followed by the exception's text.
\<close>

theorem search_local_docs_embed_failure:
  "\<exists>msg w'. search_local_docs w query top_k = Some (msg, w')
     \<and> (\<forall>store w1. ensure_vectorstore_build w = Some (Inr store, w1)
            \<and> ntotal (index store) \<noteq> 0 \<longrightarrow>
          (api_key w1 = [] \<longrightarrow> msg = ''No OPENAI_API_KEY. Cannot embed queries.'')
          \<and> (\<forall>e. api_key w1 \<noteq> [] \<and> provider w1 (embed_calls w1) query = Inl e \<longrightarrow>
                msg = ''Error in RAG search: '' @ exc_text w1 e))"
proof -
  obtain r w1 where b: "ensure_vectorstore_build w = Some (r, w1)"
    using build_returns by blast
  show ?thesis
  proof (cases r)
    case (Inl e)
    have "search_local_docs w query top_k = Some (''Error in RAG search: '' @ exc_text w1 e, w1)"
      unfolding search_local_docs_def b Inl by simp
    then show ?thesis using b Inl by simp
  next
    case (Inr store)
    note bb = b[unfolded Inr]
    show ?thesis
    proof (cases "ntotal (index store) = 0")
      case True
      have "search_local_docs w query top_k =
              Some (''No documents found in vector store. Place docs in ./my-docs.'', w1)"
        unfolding search_local_docs_def bb using True by simp
      then show ?thesis using bb True by simp
    next
      case ne: False
      show ?thesis
      proof (cases "api_key w1 = []")
        case True
        have "search_local_docs w query top_k =
                Some (''No OPENAI_API_KEY. Cannot embed queries.'', w1)"
          unfolding search_local_docs_def bb using ne True by simp
        then show ?thesis using bb True by simp
      next
        case key: False
        show ?thesis
        proof (cases "provider w1 (embed_calls w1) query")
          case (Inl e)
          have "search_local_docs w query top_k =
                  Some (''Error in RAG search: '' @ exc_text w1 e,
                        w1\<lparr>embed_calls := Suc (embed_calls w1)\<rparr>)"
            unfolding search_local_docs_def bb using ne key Inl
            by (simp add: embed_call_def)
          then show ?thesis using bb key Inl by simp
        next
          case (Inr v)
          have "\<exists>msg w'. search_local_docs w query top_k = Some (msg, w')"
            unfolding search_local_docs_def bb using ne key Inr
            by (simp add: embed_call_def split: sum.splits)
          then show ?thesis using bb key Inr by auto
        qed
      qed
    qed
  qed
qed

theorem search_local_docs_embed_failure_witness:
  "api_key nokey_world = []
   \<and> (\<exists>msg w'. search_local_docs nokey_world ''q'' 3 = Some (msg, w')
         \<and> msg = ''No OPENAI_API_KEY. Cannot embed queries.'')"
proof -
  have k: "api_key nokey_world = []" by (simp add: nokey_world_def)
  have n: "ntotal (index \<lparr>dimension = 1536, index_path = ''local_docs.index'',
                index = index two_store, doc_meta = doc_meta two_store\<rparr>) \<noteq> 0"
    by (simp add: two_store_def ntotal_def)
  from search_local_docs_embed_failure[of nokey_world "''q''" 3]
  obtain msg w' where a: "search_local_docs nokey_world ''q'' 3 = Some (msg, w')"
    and b: "\<forall>store w1. ensure_vectorstore_build nokey_world = Some (Inr store, w1)
            \<and> ntotal (index store) \<noteq> 0 \<longrightarrow>
          (api_key w1 = [] \<longrightarrow> msg = ''No OPENAI_API_KEY. Cannot embed queries.'')
          \<and> (\<forall>e. api_key w1 \<noteq> [] \<and> provider w1 (embed_calls w1) ''q'' = Inl e \<longrightarrow>
                msg = ''Error in RAG search: '' @ exc_text w1 e)"
    by (elim exE conjE)
  from b[rule_format, OF conjI[OF nokey_build n]] k
  have "msg = ''No OPENAI_API_KEY. Cannot embed queries.''" by (elim conjE) (erule mp)
  then show ?thesis using a k by (intro conjI exI)
qed

end
